theory Spec2Isabelle
  imports Main "HOL-Library.Char_ord" "HOL-Library.List_Lexorder" "HOL-Library.Sublist"
begin

section \<open>RSyncBackup: the archive trimming of \<open>libs/RSyncBackup.py\<close>\<close>

text \<open>
  Python strings are modelled as \<open>string\<close> (lists of characters) and compared the way
  Python compares \<open>str\<close> values: character by character, a proper prefix being smaller.
  That is the order of \<open>HOL-Library.List_Lexorder\<close> over \<open>HOL-Library.Char_ord\<close>.
  Python integers are \<open>int\<close>.
\<close>

subsection \<open>The slice \<open>matchingPaths [0:-1 * entriesToKeep]\<close>\<close>

text \<open>
  \<open>xs[0:stop]\<close> in Python: a negative \<open>stop\<close> counts from the end of the list and is
  clipped at 0, a non-negative one is clipped at the length.
\<close>

definition py_slice_from0 :: "'a list \<Rightarrow> int \<Rightarrow> 'a list" where
  "py_slice_from0 xs stop =
     (let n = int (length xs);
          j = (if stop < 0 then max 0 (n + stop) else min stop n)
      in take (nat j) xs)"

text \<open>
  Lines 137 to 140 of \<open>trimArchives\<close>: \<open>matchingPaths.sort()\<close>, then
  \<open>pathsToTrim = matchingPaths [0:-1 * entriesToKeep]\<close>.
\<close>

definition pathsToTrim :: "string list \<Rightarrow> int \<Rightarrow> string list" where
  "pathsToTrim matchingPaths entriesToKeep =
     py_slice_from0 (sort matchingPaths) (-1 * entriesToKeep)"

text \<open>The entries of the sorted list that the slice leaves out.\<close>

definition pathsKept :: "string list \<Rightarrow> int \<Rightarrow> string list" where
  "pathsKept matchingPaths entriesToKeep =
     drop (length (pathsToTrim matchingPaths entriesToKeep)) (sort matchingPaths)"

subsection \<open>Path strings: \<open>os.path.join\<close> and \<open>os.path.split\<close> (posixpath)\<close>

text \<open>
  \<open>os.path.join (a, b)\<close>: a component that starts with a slash replaces what came before;
  otherwise it is appended, after a slash unless the path so far is empty or already ends
  with one.
\<close>

definition os_path_join :: "string \<Rightarrow> string \<Rightarrow> string" where
  "os_path_join a b =
     (if (case b of [] \<Rightarrow> False | c # _ \<Rightarrow> c = CHR ''/'') then b
      else if a = [] \<or> last a = CHR ''/'' then a @ b
      else a @ ''/'' @ b)"


definition rstrip_slash :: "string \<Rightarrow> string" where
  "rstrip_slash s = rev (dropWhile (\<lambda>c. c = CHR ''/'') (rev s))"

text \<open>
  \<open>os.path.split (p)\<close>: the head is everything up to and including the last slash, the
  tail what follows it; trailing slashes are stripped from the head unless the head
  consists of slashes only.
\<close>

definition os_path_split :: "string \<Rightarrow> string \<times> string" where
  "os_path_split p =
     (let head = rev (dropWhile (\<lambda>c. c \<noteq> CHR ''/'') (rev p));
          tail = rev (takeWhile (\<lambda>c. c \<noteq> CHR ''/'') (rev p))
      in (if head \<noteq> [] \<and> head \<noteq> replicate (length head) CHR ''/''
          then rstrip_slash head else head, tail))"

subsection \<open>The file system\<close>

text \<open>
  The file system the program works on is modelled as a finite table from the
  components of a path to what is found there, a regular file or a directory. The root
  directory is the empty component list and always exists; paths are resolved from it
  (the working directory is the root). The operating system resolves a path by its
  non-empty components between slashes; the empty path names nothing. A component
  \<open>.\<close> or \<open>..\<close> is not interpreted, and there are no symbolic links.
\<close>

datatype kind = File | Dir

type_synonym fs = "(string list \<times> kind) list"

datatype error = OSError

fun comps_from :: "string \<Rightarrow> string \<Rightarrow> string list" where
  "comps_from cur [] = (if cur = [] then [] else [cur])"
| "comps_from cur (c # cs) =
     (if c = CHR ''/'' then (if cur = [] then [] else [cur]) @ comps_from [] cs
      else comps_from (cur @ [c]) cs)"

definition comps :: "string \<Rightarrow> string list" where
  "comps p = comps_from [] p"

definition valid_name :: "string \<Rightarrow> bool" where
  "valid_name n \<longleftrightarrow> n \<noteq> [] \<and> CHR ''/'' \<notin> set n"

text \<open>
  A well-formed table: every entry has a name, names are non-empty and free of slashes,
  no path is listed twice, and every entry lies in a directory.
\<close>

definition valid_fs :: "fs \<Rightarrow> bool" where
  "valid_fs fs \<longleftrightarrow>
     distinct (map fst fs) \<and>
     (\<forall>(q, k) \<in> set fs. q \<noteq> [] \<and> list_all valid_name q \<and>
        (butlast q = [] \<or> map_of fs (butlast q) = Some Dir))"

definition lstat :: "fs \<Rightarrow> string \<Rightarrow> kind option" where
  "lstat fs p =
     (if p = [] then None else if comps p = [] then Some Dir else map_of fs (comps p))"

definition os_path_isdir :: "fs \<Rightarrow> string \<Rightarrow> bool" where
  "os_path_isdir fs p \<longleftrightarrow> lstat fs p = Some Dir"

definition names_in :: "fs \<Rightarrow> string list \<Rightarrow> string list" where
  "names_in fs d = map (last \<circ> fst) (filter (\<lambda>e. fst e \<noteq> [] \<and> butlast (fst e) = d) fs)"

definition unlink :: "fs \<Rightarrow> string list \<Rightarrow> fs" where
  "unlink fs q = filter (\<lambda>e. fst e \<noteq> q) fs"

definition os_listdir :: "fs \<Rightarrow> string \<Rightarrow> error + string list" where
  "os_listdir fs p =
     (case lstat fs p of Some Dir \<Rightarrow> Inr (names_in fs (comps p)) | _ \<Rightarrow> Inl OSError)"

text \<open>\<open>os.remove\<close> deletes a file and fails on a directory and on a missing path.\<close>

definition os_remove :: "fs \<Rightarrow> string \<Rightarrow> error + fs" where
  "os_remove fs p =
     (case lstat fs p of Some File \<Rightarrow> Inr (unlink fs (comps p)) | _ \<Rightarrow> Inl OSError)"

text \<open>
  \<open>os.rmdir\<close> deletes an empty directory; it fails on a directory that has entries, on
  the root, on a file and on a missing path.
\<close>

definition os_rmdir :: "fs \<Rightarrow> string \<Rightarrow> error + fs" where
  "os_rmdir fs p =
     (case lstat fs p of
        Some Dir \<Rightarrow>
          (if comps p = [] \<or> names_in fs (comps p) \<noteq> [] then Inl OSError
           else Inr (unlink fs (comps p)))
      | _ \<Rightarrow> Inl OSError)"

subsection \<open>\<open>os.path.walk\<close> (Python 2)\<close>

text \<open>
  A computation on the file system either returns a value or raises; an exception leaves
  the file system as it was when it was raised, so the error comes with that state.

  \<open>os.path.walk (top, func, arg)\<close> lists the directory \<open>top\<close> (and returns silently when that
  fails), calls \<open>func (arg, top, names)\<close>, then descends into every name that
  \<open>lstat\<close> finds to be a directory. The visitor's state (the file system and the
  list the visitor object accumulates) is threaded through. The recursion depth is
  bounded by a counter; \<open>None\<close> means that the counter ran out.
\<close>

type_synonym 'a io = "(error \<times> fs) + 'a"

type_synonym visitor = "string \<Rightarrow> string list \<Rightarrow> fs \<times> string list \<Rightarrow> (fs \<times> string list) io"

fun os_path_walk :: "nat \<Rightarrow> visitor \<Rightarrow> string \<Rightarrow> fs \<times> string list \<Rightarrow> (fs \<times> string list) io option"
  and walk_names :: "nat \<Rightarrow> visitor \<Rightarrow> string \<Rightarrow> string list \<Rightarrow> fs \<times> string list \<Rightarrow> (fs \<times> string list) io option"
where
  "os_path_walk 0 func top_dir st = None"
| "os_path_walk (Suc n) func top_dir st =
     (case os_listdir (fst st) top_dir of
        Inl e \<Rightarrow> Some (Inr st)
      | Inr names \<Rightarrow>
          (case func top_dir names st of
             Inl e \<Rightarrow> Some (Inl e)
           | Inr st' \<Rightarrow> walk_names n func top_dir names st'))"
| "walk_names n func top_dir [] st = Some (Inr st)"
| "walk_names n func top_dir (name # names) st =
     (if lstat (fst st) (os_path_join top_dir name) = Some Dir
      then (case os_path_walk n func (os_path_join top_dir name) st of
              None \<Rightarrow> None
            | Some (Inl e) \<Rightarrow> Some (Inl e)
            | Some (Inr st') \<Rightarrow> walk_names n func top_dir names st')
      else walk_names n func top_dir names st)"

text \<open>The depth of the deepest entry, plus one, is enough for every walk (shown below).\<close>

definition fs_depth :: "fs \<Rightarrow> nat" where
  "fs_depth fs = foldr (\<lambda>e m. max (length (fst e)) m) fs 0"

definition walk_fuel :: "fs \<Rightarrow> nat" where
  "walk_fuel fs = Suc (fs_depth fs)"

subsection \<open>\<open>pathWalker\<close> and \<open>pathRemover\<close>\<close>

text \<open>
  \<open>pathWalker.walking\<close>: every name whose joined path the regular expression finds a
  match in is appended to \<open>foundPaths\<close>. A compiled regular expression is modelled by
  its \<open>search\<close> predicate.
\<close>

fun pathWalker_walking :: "(string \<Rightarrow> bool) \<Rightarrow> visitor" where
  "pathWalker_walking regex dirname [] st = Inr st"
| "pathWalker_walking regex dirname (name # names) (fs, foundPaths) =
     (if regex (os_path_join dirname name)
      then pathWalker_walking regex dirname names (fs, foundPaths @ [os_path_join dirname name])
      else pathWalker_walking regex dirname names (fs, foundPaths))"

definition pathWalker_walk :: "(string \<Rightarrow> bool) \<Rightarrow> fs \<Rightarrow> string \<Rightarrow> (fs \<times> string list) io option" where
  "pathWalker_walk regex fs path = os_path_walk (walk_fuel fs) (pathWalker_walking regex) path (fs, [])"

text \<open>
  \<open>pathRemover.walking\<close>: a name that is a directory is noted in \<open>dirsToRemove\<close>, any
  other name is removed at once.
\<close>

fun pathRemover_walking :: visitor where
  "pathRemover_walking dirname [] st = Inr st"
| "pathRemover_walking dirname (name # names) (fs, dirsToRemove) =
     (let target = os_path_join dirname name
      in if os_path_isdir fs target
         then pathRemover_walking dirname names (fs, dirsToRemove @ [target])
         else (case os_remove fs target of
                 Inl e \<Rightarrow> Inl (e, fs)
               | Inr fs' \<Rightarrow> pathRemover_walking dirname names (fs', dirsToRemove)))"

text \<open>The loop \<open>for dir in self.dirsToRemove: os.rmdir (dir)\<close>.\<close>

fun rmdir_all :: "fs \<Rightarrow> string list \<Rightarrow> fs io" where
  "rmdir_all fs [] = Inr fs"
| "rmdir_all fs (dir # dirs) =
     (case os_rmdir fs dir of Inl e \<Rightarrow> Inl (e, fs) | Inr fs' \<Rightarrow> rmdir_all fs' dirs)"

text \<open>
  \<open>pathRemover.walk\<close>: walk, then remove the noted directories, last one first.
  \<open>dirsToRemove\<close> is empty when the method is entered (\<open>__init__\<close> and the end of
  \<open>walk\<close> both set it to \<open>[]\<close>).
\<close>

definition pathRemover_walk :: "fs \<Rightarrow> string \<Rightarrow> fs io option" where
  "pathRemover_walk fs path =
     (case os_path_walk (walk_fuel fs) pathRemover_walking path (fs, []) of
        None \<Rightarrow> None
      | Some (Inl e) \<Rightarrow> Some (Inl e)
      | Some (Inr (fs', dirsToRemove)) \<Rightarrow> Some (rmdir_all fs' (rev dirsToRemove)))"

subsection \<open>The default filter of \<open>trimArchives\<close>\<close>

text \<open>
  The default pattern is
  \<open>os.path.join (re.escape (archiveDir), '[0-9]{4,4}', '[0-9]{2,2}', '[0-9]{8,8}-[0-9]{6,6}$')\<close>.
  Every item of it matches exactly one character: an escaped character of
  \<open>archiveDir\<close> or a literal slash or dash matches itself, \<open>[0-9]\<close> matches an ASCII
  digit. \<open>os.path.join\<close> puts a slash after the escaped \<open>archiveDir\<close> unless that is
  empty or ends with a slash. The final \<open>$\<close> matches at the end of the string and
  also just before a newline that ends the string. \<open>search\<close> tries every start position.
\<close>

datatype item = Lit char | Digit

definition is_digit :: "char \<Rightarrow> bool" where
  "is_digit c \<longleftrightarrow> CHR ''0'' \<le> c \<and> c \<le> CHR ''9''"

fun item_matches :: "item \<Rightarrow> char \<Rightarrow> bool" where
  "item_matches (Lit a) c \<longleftrightarrow> c = a"
| "item_matches Digit c \<longleftrightarrow> is_digit c"

fun match_here :: "item list \<Rightarrow> string \<Rightarrow> bool" where
  "match_here [] s \<longleftrightarrow> s = [] \<or> s = [CHR 0x0A]"
| "match_here (i # is) [] \<longleftrightarrow> False"
| "match_here (i # is) (c # cs) \<longleftrightarrow> item_matches i c \<and> match_here is cs"

fun regex_search :: "item list \<Rightarrow> string \<Rightarrow> bool" where
  "regex_search pat [] \<longleftrightarrow> match_here pat []"
| "regex_search pat (c # cs) \<longleftrightarrow> match_here pat (c # cs) \<or> regex_search pat cs"

definition default_pattern :: "string \<Rightarrow> item list" where
  "default_pattern archiveDir =
     map Lit archiveDir
     @ (if archiveDir = [] \<or> last archiveDir = CHR ''/'' then [] else [Lit CHR ''/''])
     @ replicate 4 Digit @ [Lit CHR ''/'']
     @ replicate 2 Digit @ [Lit CHR ''/'']
     @ replicate 8 Digit @ [Lit CHR ''-''] @ replicate 6 Digit"

definition nameFilter :: "string \<Rightarrow> (string \<Rightarrow> bool) option \<Rightarrow> string \<Rightarrow> bool" where
  "nameFilter archiveDir filter_re =
     (case filter_re of None \<Rightarrow> regex_search (default_pattern archiveDir) | Some re \<Rightarrow> re)"

subsection \<open>\<open>RSyncBackup.trimArchives\<close>\<close>

record RSyncBackup =
  lastRunFile :: string
  rsync :: string
  testRun :: bool

text \<open>Lines 135 to 138: the walk that collects the matching paths.\<close>

definition collect_matchingPaths :: "RSyncBackup \<Rightarrow> fs \<Rightarrow> string \<Rightarrow> (string \<Rightarrow> bool) option \<Rightarrow> (fs \<times> string list) io option" where
  "collect_matchingPaths self fs archiveDir filter_re =
     pathWalker_walk (nameFilter archiveDir filter_re) fs archiveDir"

text \<open>
  Lines 146 to 150: the removal of one selected path, a directory with everything in it
  or a single file.
\<close>

definition remove_path :: "fs \<Rightarrow> string \<Rightarrow> fs io option" where
  "remove_path fs pathToRemove =
     (if os_path_isdir fs pathToRemove
      then (case pathRemover_walk fs pathToRemove of
              None \<Rightarrow> None
            | Some (Inl e) \<Rightarrow> Some (Inl e)
            | Some (Inr fs') \<Rightarrow>
                Some (case os_rmdir fs' pathToRemove of Inl e \<Rightarrow> Inl (e, fs') | Inr fs'' \<Rightarrow> Inr fs''))
      else Some (case os_remove fs pathToRemove of Inl e \<Rightarrow> Inl (e, fs) | Inr fs' \<Rightarrow> Inr fs'))"

text \<open>
  Lines 151 to 167: the loop that removes the parents of a removed path as long as they
  are empty. \<open>looking\<close> becomes 0 when \<open>os.path.split\<close> no longer changes the path
  and when the parent has an entry.
\<close>

lemma os_path_split_head_shorter:
  "fst (os_path_split p) \<noteq> p \<Longrightarrow> length (fst (os_path_split p)) < length p"
proof -
  let ?h = "rev (dropWhile (\<lambda>c. c \<noteq> CHR ''/'') (rev p))"
  assume ne: "fst (os_path_split p) \<noteq> p"
  have p: "p = ?h @ rev (takeWhile (\<lambda>c. c \<noteq> CHR ''/'') (rev p))"
    by (metis rev_append rev_rev_ident takeWhile_dropWhile_id)
  have h: "prefix ?h p"
    by (metis p prefixI)
  have "?h = rstrip_slash ?h @ rev (takeWhile (\<lambda>c. c = CHR ''/'') (rev ?h))"
    unfolding rstrip_slash_def by (metis rev_append rev_rev_ident takeWhile_dropWhile_id)
  then have "prefix (rstrip_slash ?h) ?h"
    by (metis prefixI)
  with h have "prefix (fst (os_path_split p)) p"
    by (auto simp: os_path_split_def Let_def intro: prefix_order.trans)
  with ne have "strict_prefix (fst (os_path_split p)) p"
    by (simp add: strict_prefix_def)
  then show ?thesis
    by (rule prefix_length_less)
qed

function remove_empty_parents :: "bool \<Rightarrow> fs \<Rightarrow> string \<Rightarrow> fs io" where
  "remove_empty_parents test_run fs lastParent =
     (let parent = fst (os_path_split lastParent)
      in if lastParent = parent then Inr fs
         else (case os_listdir fs parent of
                 Inl e \<Rightarrow> Inl (e, fs)
               | Inr names \<Rightarrow>
                   if length names = 0
                   then (if test_run then remove_empty_parents test_run fs parent
                         else (case os_rmdir fs parent of
                                 Inl e \<Rightarrow> Inl (e, fs)
                               | Inr fs' \<Rightarrow> remove_empty_parents test_run fs' parent))
                   else Inr fs))"
  by pat_completeness auto
termination
  by (relation "measure (\<lambda>(t, fs, p). length p)")
     (auto dest: os_path_split_head_shorter [OF not_sym])

declare remove_empty_parents.simps [simp del]

text \<open>The body of \<open>for pathToRemove in pathsToTrim\<close>, and the loop.\<close>

definition trim_path :: "RSyncBackup \<Rightarrow> bool \<Rightarrow> fs \<Rightarrow> string \<Rightarrow> fs io option" where
  "trim_path self removeParentIfEmpty fs pathToRemove =
     (case (if testRun self then Some (Inr fs) else remove_path fs pathToRemove) of
        None \<Rightarrow> None
      | Some (Inl e) \<Rightarrow> Some (Inl e)
      | Some (Inr fs') \<Rightarrow>
          Some (if removeParentIfEmpty
                then remove_empty_parents (testRun self) fs' pathToRemove
                else Inr fs'))"

fun trim_paths :: "RSyncBackup \<Rightarrow> bool \<Rightarrow> fs \<Rightarrow> string list \<Rightarrow> fs io option" where
  "trim_paths self removeParentIfEmpty fs [] = Some (Inr fs)"
| "trim_paths self removeParentIfEmpty fs (pathToRemove # rest) =
     (case trim_path self removeParentIfEmpty fs pathToRemove of
        None \<Rightarrow> None
      | Some (Inl e) \<Rightarrow> Some (Inl e)
      | Some (Inr fs') \<Rightarrow> trim_paths self removeParentIfEmpty fs' rest)"

text \<open>
  \<open>trimArchives\<close> returns nothing: a run that ends normally is \<open>Inr\<close> of the file
  system it leaves, a run that raises is \<open>Inl\<close> of the error and the file system at
  that moment.
\<close>

definition trimArchives ::
  "RSyncBackup \<Rightarrow> fs \<Rightarrow> string \<Rightarrow> (string \<Rightarrow> bool) option \<Rightarrow> int \<Rightarrow> bool \<Rightarrow> fs io option" where
  "trimArchives self fs archiveDir filter_re entriesToKeep removeParentIfEmpty =
     (case collect_matchingPaths self fs archiveDir filter_re of
        None \<Rightarrow> None
      | Some (Inl e) \<Rightarrow> Some (Inl e)
      | Some (Inr (fs', found)) \<Rightarrow>
          trim_paths self removeParentIfEmpty fs' (pathsToTrim found entriesToKeep))"

subsection \<open>The archive path built by \<open>RSyncBackup.backup\<close>\<close>


definition digit_char :: "nat \<Rightarrow> char" where
  "digit_char d = char_of (48 + d)"

fun zero_padded :: "nat \<Rightarrow> nat \<Rightarrow> string" where
  "zero_padded 0 n = []"
| "zero_padded (Suc w) n = zero_padded w (n div 10) @ [digit_char (n mod 10)]"







subsection \<open>Auxiliary notions for the statements below\<close>

text \<open>The file system a computation leaves, whether it returned or raised.\<close>

definition io_state :: "fs io \<Rightarrow> fs" where
  "io_state r = (case r of Inl (e, fs) \<Rightarrow> fs | Inr fs \<Rightarrow> fs)"


text \<open>
  \<open>examines test_run fs lastParent dir fs_dir\<close>: the parent loop, entered in the file
  system \<open>fs\<close> with \<open>lastParent\<close>, reaches the test \<open>len (os.listdir (dir)) == 0\<close> in
  the file system \<open>fs_dir\<close>. The first directory tested is the parent of \<open>lastParent\<close>;
  a further one is tested after an empty parent has been removed (or, in a test run,
  skipped).
\<close>

inductive examines :: "bool \<Rightarrow> fs \<Rightarrow> string \<Rightarrow> string \<Rightarrow> fs \<Rightarrow> bool" for test_run where
  first: "fst (os_path_split lastParent) \<noteq> lastParent \<Longrightarrow>
     examines test_run fs lastParent (fst (os_path_split lastParent)) fs"
| later: "fst (os_path_split lastParent) \<noteq> lastParent \<Longrightarrow>
     os_listdir fs (fst (os_path_split lastParent)) = Inr [] \<Longrightarrow>
     (if test_run then fs' = fs else os_rmdir fs (fst (os_path_split lastParent)) = Inr fs') \<Longrightarrow>
     examines test_run fs' (fst (os_path_split lastParent)) dir fs_dir \<Longrightarrow>
     examines test_run fs lastParent dir fs_dir"


text \<open>
  The reading of the default pattern in which \<open>$\<close> is the very end of the string: the
  last characters of the path match the items of the pattern, one by one.
\<close>

definition matches_at_end :: "item list \<Rightarrow> string \<Rightarrow> bool" where
  "matches_at_end pat p \<longleftrightarrow>
     length pat \<le> length p \<and> list_all2 item_matches pat (drop (length p - length pat) p)"


text \<open>A string of exactly \<open>n\<close> ASCII digits.\<close>

definition digits :: "nat \<Rightarrow> string \<Rightarrow> bool" where
  "digits n s \<longleftrightarrow> length s = n \<and> list_all is_digit s"

text \<open>
  A path as \<open>os.path.walk\<close> hands it to a visitor: a name of the listing of a directory,
  joined to the path of that directory.
\<close>

definition listed :: "fs \<Rightarrow> string \<Rightarrow> bool" where
  "listed fs p \<longleftrightarrow>
     (\<exists>dirname name names. p = os_path_join dirname name \<and> os_listdir fs dirname = Inr names
        \<and> name \<in> set names)"

subsection \<open>Selection: what the slice selects\<close>

lemma py_slice_from0_neg:
  "stop < 0 \<Longrightarrow> py_slice_from0 xs stop = take (length xs - nat (- stop)) xs"
proof -
  assume neg: "stop < 0"
  have "nat (max 0 (int (length xs) + stop)) = length xs - nat (- stop)"
    using neg by (simp add: max_def) linarith
  with neg show ?thesis by (simp add: py_slice_from0_def Let_def)
qed

lemma py_slice_from0_nonneg:
  "0 \<le> stop \<Longrightarrow> py_slice_from0 xs stop = take (nat stop) xs"
proof -
  assume nn: "0 \<le> stop"
  have "take (nat (min stop (int (length xs)))) xs = take (nat stop) xs"
    by (simp add: min_def)
  with nn show ?thesis by (simp add: py_slice_from0_def Let_def)
qed

lemma pathsToTrim_pos:
  "1 \<le> k \<Longrightarrow> pathsToTrim ps k = take (length ps - nat k) (sort ps)"
  by (simp add: pathsToTrim_def py_slice_from0_neg)

lemma pathsToTrim_keep_kept:
  "pathsToTrim ps k @ pathsKept ps k = sort ps"
  by (simp add: pathsToTrim_def pathsKept_def py_slice_from0_def Let_def)

lemma sorted_distinct_take_drop_less:
  fixes xs :: "'a::linorder list"
  assumes "sorted xs" and "distinct xs"
    and "x \<in> set (take n xs)" and "y \<in> set (drop n xs)"
  shows "x < y"
proof -
  from assms(3) obtain i where i: "i < n" "i < length xs" "x = xs ! i"
    by (auto simp: in_set_conv_nth)
  from assms(4) obtain j where "j < length (drop n xs)" and "y = drop n xs ! j"
    by (metis in_set_conv_nth)
  then have j: "n + j < length xs" "y = xs ! (n + j)"
    by simp_all
  have "i < n + j" using i by simp
  with assms(1) j have "xs ! i \<le> xs ! (n + j)"
    by (simp add: sorted_nth_mono)
  moreover have "xs ! i \<noteq> xs ! (n + j)"
    using assms(2) i j by (auto simp: nth_eq_iff_index_eq)
  ultimately show ?thesis using i j by simp
qed

text \<open>
  For a retention count of at least 1 the slice does what the comment on line 139
  announces: it selects the \<open>count - k\<close> smallest paths, in ascending order, and every
  one of them is smaller than every path that is left.
\<close>

lemma pathsToTrim_keep_positive:
  assumes "1 \<le> k" and "distinct ps"
  shows "length (pathsToTrim ps k) = nat (max 0 (int (length ps) - k))"
    and "pathsToTrim ps k = take (length ps - nat k) (sort ps)"
    and "sorted (pathsToTrim ps k)"
    and "length (pathsKept ps k) = min (nat k) (length ps)"
    and "\<forall>x \<in> set (pathsToTrim ps k). \<forall>y \<in> set (pathsKept ps k). x < y"
proof -
  show eq: "pathsToTrim ps k = take (length ps - nat k) (sort ps)"
    using assms(1) by (rule pathsToTrim_pos)
  show "length (pathsToTrim ps k) = nat (max 0 (int (length ps) - k))"
    using assms(1) by (simp add: eq max_def) linarith
  show "sorted (pathsToTrim ps k)"
    by (simp add: eq)
  show "length (pathsKept ps k) = min (nat k) (length ps)"
    using assms(1) by (simp add: pathsKept_def eq min_def)
  show "\<forall>x \<in> set (pathsToTrim ps k). \<forall>y \<in> set (pathsKept ps k). x < y"
  proof (intro ballI)
    fix x y
    assume "x \<in> set (pathsToTrim ps k)" and "y \<in> set (pathsKept ps k)"
    then have "x \<in> set (take (length ps - nat k) (sort ps))"
      and "y \<in> set (drop (length ps - nat k) (sort ps))"
      by (simp_all add: pathsKept_def eq min_def split: if_splits)
    moreover have "sorted (sort ps)" and "distinct (sort ps)"
      using assms(2) by simp_all
    ultimately show "x < y"
      by (rule sorted_distinct_take_drop_less [rotated 2])
  qed
qed

text \<open>
  Claim C1. The selection step (sort ascending, then the slice) is claimed to select
  exactly \<open>max(0, count - k)\<close> paths for every retention count \<open>k \<ge> 0\<close>. At
  \<open>k = 0\<close> the stop index \<open>-1 * 0\<close> is \<open>0\<close>, not "the end": with the three snapshots
  of the specification's scenario and \<open>entriesToKeep = 0\<close> the code selects nothing,
  where \<open>max(0, 3 - 0) = 3\<close> paths are claimed.
\<close>

theorem C1_selection_at_keep_zero:
  "pathsToTrim [''arch/2021/01/01012021-120000'', ''arch/2021/01/02012021-120000'',
                ''arch/2021/02/01022021-120000''] 0 = []
   \<and> length (pathsToTrim [''arch/2021/01/01012021-120000'', ''arch/2021/01/02012021-120000'',
                ''arch/2021/02/01022021-120000''] 0)
       \<noteq> nat (max 0 (int (length [''arch/2021/01/01012021-120000'',
                ''arch/2021/01/02012021-120000'', ''arch/2021/02/01022021-120000'']) - 0))"
  by (simp add: pathsToTrim_def py_slice_from0_def)

text \<open>
  Claim C2. With \<open>entriesToKeep = 0\<close> every matched entry is claimed to be selected.
  The code selects none, whatever the list of matched paths is: \<open>xs[0:-0]\<close> is
  \<open>xs[0:0]\<close>.
\<close>

theorem C2_keep_zero_selects_nothing:
  "pathsToTrim matchingPaths 0 = [] \<and> pathsKept matchingPaths 0 = sort matchingPaths"
  by (simp add: pathsToTrim_def pathsKept_def py_slice_from0_def)

text \<open>
  Claim C7. A negative retention count is claimed to be rejected with a
  \<open>ConfigurationError\<close>, without selection or deletion. \<open>trimArchives\<close> does not
  examine \<open>entriesToKeep\<close>: with two snapshots and \<open>entriesToKeep = -1\<close> the older one
  is selected and deleted, and the call returns normally.
\<close>

theorem C7_negative_keep_counterexample:
  "pathsToTrim [''arch/2021/01/01012021-120000'', ''arch/2021/01/02012021-120000''] (- 1)
     = [''arch/2021/01/01012021-120000'']
   \<and> trimArchives \<lparr>lastRunFile = ''/var/state/backupLastRun.lrf'', rsync = ''/usr/bin/rsync'',
          testRun = False\<rparr>
        [([''arch''], Dir), ([''arch'', ''2021''], Dir), ([''arch'', ''2021'', ''01''], Dir),
         ([''arch'', ''2021'', ''01'', ''01012021-120000''], Dir),
         ([''arch'', ''2021'', ''01'', ''02012021-120000''], Dir)]
        ''arch'' None (- 1) True
     = Some (Inr [([''arch''], Dir), ([''arch'', ''2021''], Dir), ([''arch'', ''2021'', ''01''], Dir),
                  ([''arch'', ''2021'', ''01'', ''02012021-120000''], Dir)])"
  by code_simp

text \<open>
  Claim C7, as the code has it: a negative \<open>entriesToKeep = -n\<close> is not rejected. The
  slice \<open>[0:n]\<close> selects the first \<open>n\<close> paths of the sorted list (all of them when
  there are fewer), and \<open>trimArchives\<close> goes on to remove that selection.
\<close>

theorem C7_negative_keep_selects_prefix:
  assumes "entriesToKeep < 0"
  shows "pathsToTrim found entriesToKeep = take (nat (- entriesToKeep)) (sort found)
    \<and> trimArchives self fs archiveDir filter_re entriesToKeep removeParentIfEmpty =
        (case collect_matchingPaths self fs archiveDir filter_re of
           None \<Rightarrow> None
         | Some (Inl e) \<Rightarrow> Some (Inl e)
         | Some (Inr (fs', matching)) \<Rightarrow>
             trim_paths self removeParentIfEmpty fs' (take (nat (- entriesToKeep)) (sort matching)))"
proof -
  have sel: "pathsToTrim ps entriesToKeep = take (nat (- entriesToKeep)) (sort ps)" for ps
    using assms by (simp add: pathsToTrim_def py_slice_from0_nonneg)
  show ?thesis
    by (simp add: sel trimArchives_def split: option.splits sum.splits prod.splits)
qed

theorem C7_negative_keep_selects_prefix_witness:
  "(- 2 :: int) < 0
   \<and> pathsToTrim [''arch/2021/02/01022021-120000'', ''arch/2021/01/02012021-120000'',
                   ''arch/2021/01/01012021-120000''] (- 2)
       = [''arch/2021/01/01012021-120000'', ''arch/2021/01/02012021-120000'']"
  using C7_negative_keep_selects_prefix [of "- 2"
      "[''arch/2021/02/01022021-120000'', ''arch/2021/01/02012021-120000'',
        ''arch/2021/01/01012021-120000'']"]
  by simp

subsection \<open>Archive names sort in chronological order\<close>





lemma length_zero_padded [simp]: "length (zero_padded w n) = w"
  by (induction w arbitrary: n) auto

















subsection \<open>Path strings and their components\<close>

lemma comps_from_slash:
  "comps_from cur (xs @ CHR ''/'' # ys) = comps_from cur xs @ comps ys"
  by (induction xs arbitrary: cur) (auto simp: comps_def)

lemma comps_from_plain:
  "CHR ''/'' \<notin> set n \<Longrightarrow> comps_from cur n = (if cur @ n = [] then [] else [cur @ n])"
  by (induction n arbitrary: cur) auto

lemma comps_Nil [simp]: "comps [] = []"
  by (simp add: comps_def)

lemma comps_append_slash: "comps (xs @ ''/'') = comps xs"
  using comps_from_slash [of "[]" xs "[]"] by (simp add: comps_def)

lemma comps_append_slashes: "comps (xs @ replicate k CHR ''/'') = comps xs"
proof (induction k)
  case 0
  then show ?case by simp
next
  case (Suc k)
  have "xs @ replicate (Suc k) CHR ''/'' = (xs @ replicate k CHR ''/'') @ ''/''"
    by (simp add: replicate_append_same)
  then show ?case using Suc comps_append_slash by metis
qed

lemma comps_rstrip_slash: "comps (rstrip_slash s) = comps s"
proof -
  let ?t = "takeWhile (\<lambda>c. c = CHR ''/'') (rev s)"
  have "s = rstrip_slash s @ rev ?t"
    unfolding rstrip_slash_def by (metis rev_append rev_rev_ident takeWhile_dropWhile_id)
  moreover have "rev ?t = replicate (length ?t) CHR ''/''"
  proof -
    have "\<forall>c \<in> set (rev ?t). c = CHR ''/''"
      by (auto dest: set_takeWhileD)
    then show ?thesis
      by (metis length_rev replicate_eqI)
  qed
  ultimately show ?thesis
    by (metis comps_append_slashes)
qed

lemma comps_join:
  assumes "valid_name n"
  shows "comps (os_path_join d n) = comps d @ [n]"
proof -
  from assms have n: "n \<noteq> []" "CHR ''/'' \<notin> set n"
    by (simp_all add: valid_name_def)
  then have hd: "\<not> (case n of [] \<Rightarrow> False | c # _ \<Rightarrow> c = CHR ''/'')"
    by (cases n) auto
  have plain: "comps n = [n]"
    using n by (simp add: comps_def comps_from_plain)
  show ?thesis
  proof (cases "d = []")
    case True
    with hd plain show ?thesis by (simp add: os_path_join_def)
  next
    case False
    show ?thesis
    proof (cases "last d = CHR ''/''")
      case True
      with False have d: "d = butlast d @ ''/''"
        by (metis append_butlast_last_id)
      have "os_path_join d n = butlast d @ CHR ''/'' # n"
        using hd True False d by (simp add: os_path_join_def)
      then have "comps (os_path_join d n) = comps (butlast d) @ [n]"
        by (simp add: comps_from_slash plain comps_def [of "butlast d @ CHR ''/'' # n"])
           (simp add: comps_def [symmetric] plain)
      moreover have "comps d = comps (butlast d)"
        using d comps_append_slash by metis
      ultimately show ?thesis by simp
    next
      case l: False
      have "os_path_join d n = d @ CHR ''/'' # n"
        using hd l False by (simp add: os_path_join_def)
      then show ?thesis
        by (simp add: comps_from_slash comps_def [of "d @ CHR ''/'' # n"])
           (simp add: comps_def [symmetric] plain)
    qed
  qed
qed


lemma split_parts:
  fixes p :: string
  defines "h0 \<equiv> rev (dropWhile (\<lambda>c. c \<noteq> CHR ''/'') (rev p))"
    and "t \<equiv> rev (takeWhile (\<lambda>c. c \<noteq> CHR ''/'') (rev p))"
  shows "p = h0 @ t" and "CHR ''/'' \<notin> set t" and "h0 = [] \<or> last h0 = CHR ''/''"
proof -
  show "p = h0 @ t"
    unfolding h0_def t_def by (metis rev_append rev_rev_ident takeWhile_dropWhile_id)
  show "CHR ''/'' \<notin> set t"
    unfolding t_def by (auto dest: set_takeWhileD)
  show "h0 = [] \<or> last h0 = CHR ''/''"
  proof (cases "dropWhile (\<lambda>c. c \<noteq> CHR ''/'') (rev p)")
    case Nil
    then show ?thesis by (simp add: h0_def)
  next
    case (Cons c cs)
    then have "c = CHR ''/''"
      using hd_dropWhile [of "\<lambda>c. c \<noteq> CHR ''/''" "rev p"] by auto
    with Cons show ?thesis by (simp add: h0_def)
  qed
qed

lemma comps_split:
  "comps p = comps (fst (os_path_split p))
     @ (if snd (os_path_split p) = [] then [] else [snd (os_path_split p)])"
proof -
  define h0 where "h0 = rev (dropWhile (\<lambda>c. c \<noteq> CHR ''/'') (rev p))"
  define t where "t = rev (takeWhile (\<lambda>c. c \<noteq> CHR ''/'') (rev p))"
  note parts = split_parts [of p, folded h0_def t_def]
  have t: "comps t = (if t = [] then [] else [t])"
    using parts(2) by (simp add: comps_def comps_from_plain)
  have "comps p = comps h0 @ comps t"
  proof (cases "h0 = []")
    case True
    with parts(1) show ?thesis by simp
  next
    case False
    with parts(3) have h0: "h0 = butlast h0 @ ''/''"
      by (metis append_butlast_last_id)
    then have "p = butlast h0 @ CHR ''/'' # t"
      using parts(1) by (metis append.assoc append_Cons append_Nil)
    then have "comps p = comps (butlast h0) @ comps t"
      using comps_from_slash [of "[]" "butlast h0" t] by (simp add: comps_def)
    moreover have "comps h0 = comps (butlast h0)"
      using h0 comps_append_slash by metis
    ultimately show ?thesis by simp
  qed
  moreover have "fst (os_path_split p) = h0 \<or> fst (os_path_split p) = rstrip_slash h0"
    by (simp add: os_path_split_def Let_def h0_def)
  then have "comps (fst (os_path_split p)) = comps h0"
    using comps_rstrip_slash by metis
  moreover have "snd (os_path_split p) = t"
    by (simp add: os_path_split_def Let_def t_def)
  ultimately show ?thesis
    using t by simp
qed

lemma comps_split_prefix: "prefix (comps (fst (os_path_split p))) (comps p)"
  using comps_split [of p] by (metis prefixI)

lemma rstrip_slash_Nil: "rstrip_slash s = [] \<Longrightarrow> s = replicate (length s) CHR ''/''"
proof -
  assume "rstrip_slash s = []"
  then have "dropWhile (\<lambda>c. c = CHR ''/'') (rev s) = []"
    by (simp add: rstrip_slash_def)
  then have "\<forall>c \<in> set (rev s). c = CHR ''/''"
    by (simp add: dropWhile_eq_Nil_conv)
  then show ?thesis
    by (metis replicate_eqI set_rev)
qed

lemma split_head_Nil: "fst (os_path_split p) = [] \<Longrightarrow> CHR ''/'' \<notin> set p"
proof -
  define h0 where "h0 = rev (dropWhile (\<lambda>c. c \<noteq> CHR ''/'') (rev p))"
  define t where "t = rev (takeWhile (\<lambda>c. c \<noteq> CHR ''/'') (rev p))"
  note parts = split_parts [of p, folded h0_def t_def]
  assume a: "fst (os_path_split p) = []"
  have "h0 = []"
  proof (rule ccontr)
    assume ne: "h0 \<noteq> []"
    show False
    proof (cases "h0 = replicate (length h0) CHR ''/''")
      case True
      with a ne show False by (simp add: os_path_split_def Let_def h0_def [symmetric])
    next
      case False
      with a ne have "rstrip_slash h0 = []"
        by (simp add: os_path_split_def Let_def h0_def [symmetric])
      with False rstrip_slash_Nil show False by blast
    qed
  qed
  with parts show ?thesis by simp
qed

lemma split_join:
  assumes "valid_name n" and "d \<noteq> []"
  shows "fst (os_path_split (os_path_join d n)) \<noteq> []"
    and "comps (fst (os_path_split (os_path_join d n))) = comps d"
    and "fst (os_path_split (os_path_join d n)) \<noteq> os_path_join d n"
proof -
  let ?p = "os_path_join d n"
  from assms have n: "n \<noteq> []" "CHR ''/'' \<notin> set n"
    by (simp_all add: valid_name_def)
  then have hd: "\<not> (case n of [] \<Rightarrow> False | c # _ \<Rightarrow> c = CHR ''/'')"
    by (cases n) auto
  have slash: "CHR ''/'' \<in> set ?p"
  proof (cases "last d = CHR ''/''")
    case True
    then have "CHR ''/'' \<in> set d" using assms(2) last_in_set by metis
    with True hd show ?thesis by (simp add: os_path_join_def)
  next
    case False
    with hd assms(2) show ?thesis by (simp add: os_path_join_def)
  qed
  then show nonempty: "fst (os_path_split ?p) \<noteq> []"
    using split_head_Nil by blast
  have c: "comps ?p = comps d @ [n]"
    using assms(1) by (rule comps_join)
  have cs: "comps ?p = comps (fst (os_path_split ?p))
     @ (if snd (os_path_split ?p) = [] then [] else [snd (os_path_split ?p)])"
    by (rule comps_split)
  have "last ?p = last n" "?p \<noteq> []"
    using n hd by (auto simp: os_path_join_def)
  then have "last ?p \<noteq> CHR ''/''"
    using n last_in_set by metis
  then have "takeWhile (\<lambda>c. c \<noteq> CHR ''/'') (rev ?p) \<noteq> []"
    using \<open>?p \<noteq> []\<close> by (cases "rev ?p") (auto simp: last_rev [symmetric] simp del: last_rev)
  then have "snd (os_path_split ?p) \<noteq> []"
    by (simp add: os_path_split_def Let_def)
  with c cs show "comps (fst (os_path_split ?p)) = comps d"
    by simp
  then show "fst (os_path_split ?p) \<noteq> ?p"
    using c by auto
qed

subsection \<open>The file system table\<close>

lemma lstat_cong: "p \<noteq> [] \<Longrightarrow> q \<noteq> [] \<Longrightarrow> comps p = comps q \<Longrightarrow> lstat fs p = lstat fs q"
  by (simp add: lstat_def)

lemma map_of_unlink: "map_of (unlink fs q) r = (if r = q then None else map_of fs r)"
  by (induction fs) (auto simp: unlink_def)

lemma map_of_filter_keys:
  "map_of (filter (\<lambda>e. P (fst e)) fs) r = (if P r then map_of fs r else None)"
  by (induction fs) auto

lemma in_names_in: "n \<in> set (names_in fs d) \<longleftrightarrow> d @ [n] \<in> fst ` set fs"
proof
  assume "n \<in> set (names_in fs d)"
  then obtain e where e: "e \<in> set fs" "fst e \<noteq> []" "butlast (fst e) = d" "n = last (fst e)"
    by (auto simp: names_in_def)
  then have "d @ [n] = fst e" using append_butlast_last_id by metis
  with e(1) show "d @ [n] \<in> fst ` set fs" by force
next
  assume "d @ [n] \<in> fst ` set fs"
  then obtain e where e: "e \<in> set fs" "fst e = d @ [n]" by force
  then have "fst e \<noteq> [] \<and> butlast (fst e) = d \<and> last (fst e) = n" by simp
  with e(1) show "n \<in> set (names_in fs d)"
    by (force simp: names_in_def)
qed

lemma names_in_Nil: "names_in fs d = [] \<longleftrightarrow> (\<forall>n. d @ [n] \<notin> fst ` set fs)"
  using in_names_in [of _ fs d] by (metis all_not_in_conv set_empty)

lemma valid_fs_entry:
  assumes "valid_fs fs" and "(q, k) \<in> set fs"
  shows "q \<noteq> []" and "list_all valid_name q"
    and "butlast q = [] \<or> map_of fs (butlast q) = Some Dir"
  using assms by (auto simp: valid_fs_def)

lemma valid_fs_map_of: "valid_fs fs \<Longrightarrow> (q, k) \<in> set fs \<longleftrightarrow> map_of fs q = Some k"
  by (auto simp: valid_fs_def dest: map_of_SomeD)

lemma keys_map_of: "q \<in> fst ` set fs \<longleftrightarrow> map_of fs q \<noteq> None"
  by (simp add: map_of_eq_None_iff)

text \<open>In a well-formed table every entry below a directory hangs on a chain of entries.\<close>

lemma valid_fs_child_of_ancestor:
  assumes "valid_fs fs" and "q \<in> fst ` set fs" and "strict_prefix d q"
  shows "\<exists>n. d @ [n] \<in> fst ` set fs \<and> prefix (d @ [n]) q"
  using assms(2,3)
proof (induction "length q" arbitrary: q)
  case 0
  then show ?case by simp
next
  case (Suc m)
  from Suc.prems(1) obtain k where qk: "(q, k) \<in> set fs" by force
  from Suc.prems(2) have "q \<noteq> []" by auto
  then have q: "q = butlast q @ [last q]" by simp
  from Suc.prems(2) have "prefix d (butlast q)"
    by (metis prefix_snoc q strict_prefix_def)
  then consider "d = butlast q" | "strict_prefix d (butlast q)"
    by (auto simp: strict_prefix_def)
  then show ?case
  proof cases
    case 1
    with q Suc.prems(1) show ?thesis by (metis prefix_order.order_refl)
  next
    case 2
    then have "butlast q \<noteq> []" by auto
    with valid_fs_entry(3) [OF assms(1) qk] have "map_of fs (butlast q) = Some Dir" by simp
    then have "butlast q \<in> fst ` set fs" by (simp add: keys_map_of)
    moreover have "m = length (butlast q)" using Suc.hyps(2) by simp
    ultimately obtain n where "d @ [n] \<in> fst ` set fs" "prefix (d @ [n]) (butlast q)"
      using Suc.hyps(1) 2 by blast
    then show ?thesis
      by (metis prefix_order.trans prefixeq_butlast)
  qed
qed

lemma valid_fs_empty_dir_no_descendants:
  assumes "valid_fs fs" and "names_in fs d = []"
  shows "\<forall>e \<in> set fs. \<not> strict_prefix d (fst e)"
proof
  fix e assume e: "e \<in> set fs"
  show "\<not> strict_prefix d (fst e)"
  proof
    assume "strict_prefix d (fst e)"
    with valid_fs_child_of_ancestor [OF assms(1)] e
    obtain n where "d @ [n] \<in> fst ` set fs" by blast
    with assms(2) show False by (simp add: names_in_Nil)
  qed
qed

lemma valid_fs_filter:
  assumes "valid_fs fs"
    and "\<And>q. q \<in> fst ` set fs \<Longrightarrow> q \<noteq> [] \<Longrightarrow> P q \<Longrightarrow> butlast q \<noteq> [] \<Longrightarrow> P (butlast q)"
  shows "valid_fs (filter (\<lambda>e. P (fst e)) fs)"
proof -
  have d: "distinct (map fst (filter (\<lambda>e. P (fst e)) fs))"
    using assms(1) by (simp add: valid_fs_def distinct_map_filter)
  have "q \<noteq> [] \<and> list_all valid_name q \<and>
      (butlast q = [] \<or> map_of (filter (\<lambda>e. P (fst e)) fs) (butlast q) = Some Dir)"
    if "(q, k) \<in> set (filter (\<lambda>e. P (fst e)) fs)" for q k
  proof -
    from that have qk: "(q, k) \<in> set fs" and P: "P q" by simp_all
    note e = valid_fs_entry [OF assms(1) qk]
    have "butlast q \<noteq> [] \<Longrightarrow> P (butlast q)"
      using assms(2) [of q] qk P e(1) by force
    with e show ?thesis by (auto simp: map_of_filter_keys)
  qed
  with d show ?thesis by (auto simp: valid_fs_def)
qed

lemma unlink_filter: "unlink fs q = filter (\<lambda>e. fst e \<noteq> q) fs"
  by (simp add: unlink_def)

lemma valid_fs_unlink_leaf:
  assumes "valid_fs fs" and "names_in fs q = []"
  shows "valid_fs (unlink fs q)"
  unfolding unlink_filter
proof (rule valid_fs_filter [OF assms(1)])
  fix r assume "r \<in> fst ` set fs" "r \<noteq> []" "r \<noteq> q"
  show "butlast r \<noteq> q"
  proof
    assume "butlast r = q"
    with \<open>r \<noteq> []\<close> have "q @ [last r] = r" by auto
    with \<open>r \<in> fst ` set fs\<close> assms(2) show False by (metis names_in_Nil)
  qed
qed

lemma valid_fs_code:
  "valid_fs fs \<longleftrightarrow> distinct (map fst fs) \<and>
     list_all (\<lambda>(q, k). q \<noteq> [] \<and> list_all valid_name q \<and>
        (butlast q = [] \<or> map_of fs (butlast q) = Some Dir)) fs"
  by (auto simp: valid_fs_def list_all_iff)


lemma os_rmdir_Inr:
  "os_rmdir fs p = Inr fs' \<longleftrightarrow>
     p \<noteq> [] \<and> comps p \<noteq> [] \<and> map_of fs (comps p) = Some Dir \<and> names_in fs (comps p) = []
     \<and> fs' = unlink fs (comps p)"
  by (auto simp: os_rmdir_def lstat_def split: option.splits kind.splits if_splits)

lemma os_remove_Inr:
  "os_remove fs p = Inr fs' \<longleftrightarrow>
     p \<noteq> [] \<and> comps p \<noteq> [] \<and> map_of fs (comps p) = Some File \<and> fs' = unlink fs (comps p)"
  by (auto simp: os_remove_def lstat_def split: option.splits kind.splits if_splits)

lemma os_listdir_Inr:
  "os_listdir fs p = Inr names \<longleftrightarrow>
     p \<noteq> [] \<and> (comps p = [] \<or> map_of fs (comps p) = Some Dir) \<and> names = names_in fs (comps p)"
  by (auto simp: os_listdir_def lstat_def split: option.splits kind.splits if_splits)


subsection \<open>The parent loop\<close>

lemma examines_resume:
  assumes "examines test_run fs lastParent dir fs_dir"
  shows "\<exists>lp. dir = fst (os_path_split lp) \<and> dir \<noteq> lp \<and>
    remove_empty_parents test_run fs lastParent = remove_empty_parents test_run fs_dir lp"
  using assms
proof (induction rule: examines.induct)
  case (first lastParent fs)
  then show ?case by blast
next
  case (later lastParent fs fs' dir fs_dir)
  from later.hyps(1,2,3)
  have "remove_empty_parents test_run fs lastParent
      = remove_empty_parents test_run fs' (fst (os_path_split lastParent))"
    by (subst remove_empty_parents.simps) (auto simp: Let_def split: if_splits)
  with later.IH show ?case by auto
qed


text \<open>
  Claim C4. Whatever directory the parent loop examines, and in whatever state of the
  file system it does so: if the directory has an entry there, the loop ends at once and
  the file system stays as it is at that moment, the directory and its entries included;
  and a directory that is gone when the loop has ended had no entry when it was examined.
\<close>

theorem C4_only_empty_directories_are_removed:
  assumes "examines test_run fs lastParent dir fs_dir"
  shows "(\<forall>names. os_listdir fs_dir dir = Inr names \<and> names \<noteq> [] \<longrightarrow>
            remove_empty_parents test_run fs lastParent = Inr fs_dir)
       \<and> (lstat fs_dir dir = Some Dir
            \<and> lstat (io_state (remove_empty_parents test_run fs lastParent)) dir \<noteq> Some Dir \<longrightarrow>
          os_listdir fs_dir dir = Inr [])"
proof -
  from examines_resume [OF assms] obtain lp
    where lp: "dir = fst (os_path_split lp)" "dir \<noteq> lp"
      and eq: "remove_empty_parents test_run fs lastParent = remove_empty_parents test_run fs_dir lp"
    by blast
  have stop: "remove_empty_parents test_run fs_dir lp = Inr fs_dir"
    if "os_listdir fs_dir dir = Inr names" "names \<noteq> []" for names
    using that lp by (subst remove_empty_parents.simps) (auto simp: Let_def)
  show ?thesis
  proof (intro conjI allI impI)
    fix names
    assume "os_listdir fs_dir dir = Inr names \<and> names \<noteq> []"
    with stop eq show "remove_empty_parents test_run fs lastParent = Inr fs_dir" by simp
  next
    assume a: "lstat fs_dir dir = Some Dir
      \<and> lstat (io_state (remove_empty_parents test_run fs lastParent)) dir \<noteq> Some Dir"
    then obtain names where names: "os_listdir fs_dir dir = Inr names"
      by (simp add: os_listdir_def)
    show "os_listdir fs_dir dir = Inr []"
    proof (cases names)
      case Nil
      with names show ?thesis by simp
    next
      case (Cons n ns)
      with names stop eq have "remove_empty_parents test_run fs lastParent = Inr fs_dir"
        by simp
      with a show ?thesis by (simp add: io_state_def)
    qed
  qed
qed

theorem C4_only_empty_directories_are_removed_witness:
  "examines False [([''srv''], Dir), ([''srv'', ''arch''], Dir), ([''srv'', ''other''], File)]
      ''/srv/arch/old'' ''/srv'' [([''srv''], Dir), ([''srv'', ''other''], File)]
   \<and> remove_empty_parents False
        [([''srv''], Dir), ([''srv'', ''arch''], Dir), ([''srv'', ''other''], File)] ''/srv/arch/old''
      = Inr [([''srv''], Dir), ([''srv'', ''other''], File)]"
proof -
  let ?fs = "[([''srv''], Dir), ([''srv'', ''arch''], Dir), ([''srv'', ''other''], File)]"
  let ?fs' = "[([''srv''], Dir), ([''srv'', ''other''], File)]"
  have s1: "fst (os_path_split ''/srv/arch/old'') = ''/srv/arch''" by code_simp
  have s2: "fst (os_path_split ''/srv/arch'') = ''/srv''" by code_simp
  have l1: "os_listdir ?fs ''/srv/arch'' = Inr []" by code_simp
  have r1: "os_rmdir ?fs ''/srv/arch'' = Inr ?fs'" by code_simp
  have l2: "os_listdir ?fs' ''/srv'' = Inr [''other'']" by code_simp
  have "examines False ?fs' ''/srv/arch'' ''/srv'' ?fs'"
    using examines.first [of "''/srv/arch''" False ?fs'] by (simp add: s2)
  then have ex: "examines False ?fs ''/srv/arch/old'' ''/srv'' ?fs'"
    using examines.later [of "''/srv/arch/old''" ?fs False ?fs' "''/srv''" ?fs'] l1 r1
    by (simp add: s1)
  from C4_only_empty_directories_are_removed [OF ex] l2
  have "remove_empty_parents False ?fs ''/srv/arch/old'' = Inr ?fs'"
    by simp
  with ex show ?thesis by simp
qed

text \<open>
  What the loop does to the file system: the entries it removes are directories on the
  way from the removed path up to the root, and whatever lay in such a directory when the
  loop began has been removed by the loop as well.
\<close>

lemma remove_empty_parents_effect:
  "valid_fs fs \<Longrightarrow>
   \<exists>removed. io_state (remove_empty_parents test_run fs lastParent)
       = filter (\<lambda>e. fst e \<notin> set removed) fs
     \<and> (\<forall>d \<in> set removed. prefix d (comps lastParent) \<and> map_of fs d = Some Dir
           \<and> (\<forall>e \<in> set fs. strict_prefix d (fst e) \<longrightarrow> fst e \<in> set removed))"
proof (induction test_run fs lastParent rule: remove_empty_parents.induct)
  case (1 test_run fs lastParent)
  define parent where "parent = fst (os_path_split lastParent)"
  have none: ?case if "io_state (remove_empty_parents test_run fs lastParent) = fs"
    using that by (intro exI [of _ "[]"]) simp
  have up: "prefix (comps parent) (comps lastParent)"
    unfolding parent_def by (rule comps_split_prefix)
  show ?case
  proof (cases "lastParent = parent")
    case True
    then have "remove_empty_parents test_run fs lastParent = Inr fs"
      by (subst remove_empty_parents.simps) (simp add: parent_def Let_def)
    then show ?thesis by (intro none) (simp add: io_state_def)
  next
    case ne: False
    show ?thesis
    proof (cases "os_listdir fs parent")
      case (Inl e)
      with ne have "remove_empty_parents test_run fs lastParent = Inl (e, fs)"
        by (subst remove_empty_parents.simps) (simp add: parent_def Let_def)
      then show ?thesis by (intro none) (simp add: io_state_def)
    next
      case (Inr names)
      show ?thesis
      proof (cases "names = []")
        case False
        with ne Inr have "remove_empty_parents test_run fs lastParent = Inr fs"
          by (subst remove_empty_parents.simps) (simp add: parent_def Let_def)
        then show ?thesis by (intro none) (simp add: io_state_def)
      next
        case empty: True
        show ?thesis
        proof (cases test_run)
          case True
          with ne Inr empty
          have eq: "remove_empty_parents test_run fs lastParent = remove_empty_parents test_run fs parent"
            by (subst remove_empty_parents.simps) (simp add: parent_def Let_def)
          from "1.IH"(1) [OF parent_def ne Inr _ True "1.prems"] empty
          obtain removed where r: "io_state (remove_empty_parents test_run fs parent)
                = filter (\<lambda>e. fst e \<notin> set removed) fs"
            "\<forall>d \<in> set removed. prefix d (comps parent) \<and> map_of fs d = Some Dir
               \<and> (\<forall>e \<in> set fs. strict_prefix d (fst e) \<longrightarrow> fst e \<in> set removed)"
            by auto
          from r(2) up have "\<forall>d \<in> set removed. prefix d (comps lastParent) \<and> map_of fs d = Some Dir
               \<and> (\<forall>e \<in> set fs. strict_prefix d (fst e) \<longrightarrow> fst e \<in> set removed)"
            by (meson prefix_order.trans)
          with r(1) eq show ?thesis by auto
        next
          case real: False
          show ?thesis
          proof (cases "os_rmdir fs parent")
            case (Inl e)
            with ne Inr empty real have "remove_empty_parents test_run fs lastParent = Inl (e, fs)"
              by (subst remove_empty_parents.simps) (simp add: parent_def Let_def)
            then show ?thesis by (intro none) (simp add: io_state_def)
          next
            case rm: (Inr fs')
            then have fs': "fs' = unlink fs (comps parent)" and dir: "map_of fs (comps parent) = Some Dir"
              and leaf: "names_in fs (comps parent) = []"
              by (simp_all add: os_rmdir_Inr)
            have v': "valid_fs fs'"
              unfolding fs' using "1.prems" leaf by (rule valid_fs_unlink_leaf)
            from ne Inr empty real rm
            have eq: "remove_empty_parents test_run fs lastParent = remove_empty_parents test_run fs' parent"
              by (subst remove_empty_parents.simps) (simp add: parent_def Let_def)
            from "1.IH"(2) [OF parent_def ne Inr _ real rm v'] empty
            obtain removed where r: "io_state (remove_empty_parents test_run fs' parent)
                  = filter (\<lambda>e. fst e \<notin> set removed) fs'"
              "\<forall>d \<in> set removed. prefix d (comps parent) \<and> map_of fs' d = Some Dir
                 \<and> (\<forall>e \<in> set fs'. strict_prefix d (fst e) \<longrightarrow> fst e \<in> set removed)"
              by auto
            let ?R = "comps parent # removed"
            have st: "io_state (remove_empty_parents test_run fs lastParent)
                = filter (\<lambda>e. fst e \<notin> set ?R) fs"
            proof -
              have "filter (\<lambda>e. fst e \<notin> set removed) (unlink fs (comps parent))
                  = filter (\<lambda>e. fst e \<notin> set ?R) fs"
                unfolding unlink_filter by (auto intro: filter_cong)
              with eq r(1) fs' show ?thesis by simp
            qed
            have "prefix d (comps lastParent) \<and> map_of fs d = Some Dir
                 \<and> (\<forall>e \<in> set fs. strict_prefix d (fst e) \<longrightarrow> fst e \<in> set ?R)"
              if d: "d \<in> set ?R" for d
            proof (cases "d = comps parent")
              case True
              with up dir valid_fs_empty_dir_no_descendants [OF "1.prems" leaf]
              show ?thesis by auto
            next
              case False
              with d have dr: "d \<in> set removed" by simp
              with r(2) have a: "prefix d (comps parent)" and b: "map_of fs' d = Some Dir"
                and c: "\<forall>e \<in> set fs'. strict_prefix d (fst e) \<longrightarrow> fst e \<in> set removed"
                by blast+
              from a up have "prefix d (comps lastParent)" by (rule prefix_order.trans)
              moreover from b have "map_of fs d = Some Dir"
                by (simp add: fs' map_of_unlink split: if_splits)
              moreover have "fst e \<in> set ?R" if "e \<in> set fs" "strict_prefix d (fst e)" for e
              proof (cases "fst e = comps parent")
                case True
                then show ?thesis by simp
              next
                case False
                with that(1) have "e \<in> set fs'" by (simp add: fs' unlink_filter)
                with c that(2) show ?thesis by simp
              qed
              ultimately show ?thesis by blast
            qed
            with st show ?thesis by blast
          qed
        qed
      qed
    qed
  qed
qed







subsection \<open>The default pattern\<close>

lemma match_here_iff:
  "match_here pat s \<longleftrightarrow>
     list_all2 item_matches pat s \<or> (\<exists>s'. s = s' @ [CHR 0x0A] \<and> list_all2 item_matches pat s')"
proof (induction pat s rule: match_here.induct)
  case (1 s)
  then show ?case by auto
next
  case (2 i "is")
  then show ?case by simp
next
  case (3 i "is" c cs)
  show ?case
  proof
    assume "match_here (i # is) (c # cs)"
    then have i: "item_matches i c" and "match_here is cs" by simp_all
    with 3 consider "list_all2 item_matches is cs"
      | s' where "cs = s' @ [CHR 0x0A]" "list_all2 item_matches is s'" by blast
    then show "list_all2 item_matches (i # is) (c # cs) \<or>
       (\<exists>s'. c # cs = s' @ [CHR 0x0A] \<and> list_all2 item_matches (i # is) s')"
    proof cases
      case 1
      with i show ?thesis by simp
    next
      case 2
      with i have "c # cs = (c # s') @ [CHR 0x0A] \<and> list_all2 item_matches (i # is) (c # s')"
        by simp
      then show ?thesis by blast
    qed
  next
    assume r: "list_all2 item_matches (i # is) (c # cs) \<or>
       (\<exists>s'. c # cs = s' @ [CHR 0x0A] \<and> list_all2 item_matches (i # is) s')"
    show "match_here (i # is) (c # cs)"
    proof (rule disjE [OF r])
      assume "list_all2 item_matches (i # is) (c # cs)"
      with 3 show ?thesis by simp
    next
      assume "\<exists>s'. c # cs = s' @ [CHR 0x0A] \<and> list_all2 item_matches (i # is) s'"
      then obtain s' where s': "c # cs = s' @ [CHR 0x0A]" "list_all2 item_matches (i # is) s'"
        by blast
      from s'(2) obtain c' t where t: "s' = c' # t" "item_matches i c'" "list_all2 item_matches is t"
        by (auto simp: list_all2_Cons1)
      with s'(1) have "c = c'" "cs = t @ [CHR 0x0A]" by simp_all
      with t 3 show ?thesis by auto
    qed
  qed
qed

lemma regex_search_iff:
  "regex_search pat s \<longleftrightarrow> (\<exists>pre suf. s = pre @ suf \<and> match_here pat suf)"
proof (induction s)
  case Nil
  then show ?case by simp
next
  case (Cons c cs)
  show ?case
  proof
    assume "regex_search pat (c # cs)"
    then consider "match_here pat (c # cs)" | "regex_search pat cs" by auto
    then show "\<exists>pre suf. c # cs = pre @ suf \<and> match_here pat suf"
    proof cases
      case 1
      then have "c # cs = [] @ (c # cs) \<and> match_here pat (c # cs)" by simp
      then show ?thesis by blast
    next
      case 2
      with Cons obtain pre suf where "cs = pre @ suf" "match_here pat suf" by blast
      then have "c # cs = (c # pre) @ suf \<and> match_here pat suf" by simp
      then show ?thesis by blast
    qed
  next
    assume "\<exists>pre suf. c # cs = pre @ suf \<and> match_here pat suf"
    then obtain pre suf where ps: "c # cs = pre @ suf" "match_here pat suf" by blast
    show "regex_search pat (c # cs)"
    proof (cases pre)
      case Nil
      with ps have "match_here pat (c # cs)" by simp
      then show ?thesis by simp
    next
      case (Cons a pre')
      with ps have "cs = pre' @ suf" by simp
      with ps(2) Cons.IH show ?thesis by auto
    qed
  qed
qed

lemma matches_at_end_iff:
  "matches_at_end pat p \<longleftrightarrow> (\<exists>pre suf. p = pre @ suf \<and> list_all2 item_matches pat suf)"
proof
  assume "matches_at_end pat p"
  then have "p = take (length p - length pat) p @ drop (length p - length pat) p
     \<and> list_all2 item_matches pat (drop (length p - length pat) p)"
    by (simp add: matches_at_end_def)
  then show "\<exists>pre suf. p = pre @ suf \<and> list_all2 item_matches pat suf" by blast
next
  assume "\<exists>pre suf. p = pre @ suf \<and> list_all2 item_matches pat suf"
  then obtain pre suf where ps: "p = pre @ suf" "list_all2 item_matches pat suf" by blast
  then have "length pat = length suf" by (simp add: list_all2_lengthD)
  with ps show "matches_at_end pat p" by (simp add: matches_at_end_def)
qed

lemma regex_search_dollar:
  "regex_search pat p \<longleftrightarrow>
     matches_at_end pat p \<or> (\<exists>q. p = q @ [CHR 0x0A] \<and> matches_at_end pat q)"
  unfolding regex_search_iff match_here_iff matches_at_end_iff
  by (metis append.assoc)

lemma list_all2_Lit: "list_all2 item_matches (map Lit a) s \<longleftrightarrow> s = a"
proof (induction a arbitrary: s)
  case Nil
  then show ?case by simp
next
  case (Cons c a)
  then show ?case by (cases s) auto
qed

lemma list_all2_Digit:
  "list_all2 item_matches (replicate n Digit) s \<longleftrightarrow> length s = n \<and> list_all is_digit s"
proof (induction n arbitrary: s)
  case 0
  then show ?case by auto
next
  case (Suc n)
  then show ?case by (cases s) auto
qed

lemma list_all2_append_iff:
  "list_all2 P (xs @ ys) s \<longleftrightarrow> (\<exists>u v. s = u @ v \<and> list_all2 P xs u \<and> list_all2 P ys v)"
proof
  assume "list_all2 P (xs @ ys) s"
  then show "\<exists>u v. s = u @ v \<and> list_all2 P xs u \<and> list_all2 P ys v"
    by (auto simp: list_all2_append1)
next
  assume "\<exists>u v. s = u @ v \<and> list_all2 P xs u \<and> list_all2 P ys v"
  then show "list_all2 P (xs @ ys) s"
    by (auto intro: list_all2_appendI)
qed

lemma default_pattern_pieces:
  "default_pattern archiveDir =
     map Lit (archiveDir @ (if archiveDir = [] \<or> last archiveDir = CHR ''/'' then [] else ''/''))
     @ replicate 4 Digit @ map Lit ''/'' @ replicate 2 Digit @ map Lit ''/''
     @ replicate 8 Digit @ map Lit ''-'' @ replicate 6 Digit"
  by (simp add: default_pattern_def)

lemma match_Lit_then:
  "list_all2 item_matches (map Lit a @ pat) s \<longleftrightarrow> (\<exists>r. s = a @ r \<and> list_all2 item_matches pat r)"
  unfolding list_all2_append_iff list_all2_Lit by blast

lemma match_Digits_then:
  "list_all2 item_matches (replicate n Digit @ pat) s \<longleftrightarrow>
     (\<exists>u r. s = u @ r \<and> digits n u \<and> list_all2 item_matches pat r)"
  unfolding list_all2_append_iff list_all2_Digit digits_def by blast

lemma match_Digits_end: "list_all2 item_matches (replicate n Digit) s \<longleftrightarrow> digits n s"
  unfolding list_all2_Digit digits_def by blast

lemma default_pattern_exact:
  "list_all2 item_matches (default_pattern archiveDir) s \<longleftrightarrow>
     (\<exists>y m d t. digits 4 y \<and> digits 2 m \<and> digits 8 d \<and> digits 6 t \<and>
        s = (archiveDir @ (if archiveDir = [] \<or> last archiveDir = CHR ''/'' then [] else ''/''))
              @ y @ ''/'' @ m @ ''/'' @ d @ ''-'' @ t)"
  unfolding default_pattern_pieces match_Lit_then match_Digits_then match_Digits_end
proof (intro iffI; elim exE conjE)
  fix r u ra rb ua rc rd ub re rf
  assume "s = (archiveDir @ (if archiveDir = [] \<or> last archiveDir = CHR ''/'' then [] else ''/'')) @ r"
    "r = u @ ra" "digits 4 u" "ra = ''/'' @ rb" "rb = ua @ rc" "digits 2 ua" "rc = ''/'' @ rd"
    "rd = ub @ re" "digits 8 ub" "re = ''-'' @ rf" "digits 6 rf"
  then have "digits 4 u \<and> digits 2 ua \<and> digits 8 ub \<and> digits 6 rf \<and>
     s = (archiveDir @ (if archiveDir = [] \<or> last archiveDir = CHR ''/'' then [] else ''/''))
              @ u @ ''/'' @ ua @ ''/'' @ ub @ ''-'' @ rf"
    by simp
  then show "\<exists>y m d t. digits 4 y \<and> digits 2 m \<and> digits 8 d \<and> digits 6 t \<and>
        s = (archiveDir @ (if archiveDir = [] \<or> last archiveDir = CHR ''/'' then [] else ''/''))
              @ y @ ''/'' @ m @ ''/'' @ d @ ''-'' @ t"
    by (intro exI)
next
  fix y m d t
  assume d: "digits 4 y" "digits 2 m" "digits 8 d" "digits 6 t"
    and s: "s = (archiveDir @ (if archiveDir = [] \<or> last archiveDir = CHR ''/'' then [] else ''/''))
              @ y @ ''/'' @ m @ ''/'' @ d @ ''-'' @ t"
  show "\<exists>r. s = (archiveDir @ (if archiveDir = [] \<or> last archiveDir = CHR ''/'' then [] else ''/'')) @ r \<and>
        (\<exists>u r'. r = u @ r' \<and> digits 4 u \<and>
          (\<exists>r. r' = ''/'' @ r \<and>
            (\<exists>u r'. r = u @ r' \<and> digits 2 u \<and>
              (\<exists>r. r' = ''/'' @ r \<and>
                (\<exists>u r'. r = u @ r' \<and> digits 8 u \<and>
                  (\<exists>r. r' = ''-'' @ r \<and> digits 6 r))))))"
    unfolding s using d
    by (intro exI conjI) (rule refl | assumption)+
qed


text \<open>
  What the default filter accepts: a path whose last characters are \<open>archiveDir\<close>
  (followed by a slash unless it is empty or ends with one), four digits, a slash, two
  digits, a slash, eight digits, a dash and six digits; and also such a path followed
  by one newline character.
\<close>

lemma default_filter_accepts:
  "nameFilter archiveDir None p \<longleftrightarrow>
     matches_at_end (default_pattern archiveDir) p
     \<or> (\<exists>q. p = q @ [CHR 0x0A] \<and> matches_at_end (default_pattern archiveDir) q)"
  by (simp add: nameFilter_def regex_search_dollar)

lemma matches_at_end_default_pattern:
  "matches_at_end (default_pattern archiveDir) p \<longleftrightarrow>
     (\<exists>pre y m d t. digits 4 y \<and> digits 2 m \<and> digits 8 d \<and> digits 6 t \<and>
        p = pre @ (archiveDir @ (if archiveDir = [] \<or> last archiveDir = CHR ''/'' then [] else ''/''))
              @ y @ ''/'' @ m @ ''/'' @ d @ ''-'' @ t)"
  unfolding matches_at_end_iff default_pattern_exact by blast

text \<open>
  Claim C8. The default pattern is claimed to match a path if and only if the path ends
  with \<open>archiveDir/<4 digits>/<2 digits>/<8 digits>-<6 digits>\<close>, so that no other entry
  is ever a candidate. In Python \<open>$\<close> also matches just before a newline that ends the
  string: a file whose name is a timestamp followed by a newline character does not end
  with the form, yet the pattern matches it, \<open>pathWalker.walk\<close> lists it among the
  candidates, and \<open>trimArchives\<close> with \<open>entriesToKeep = 1\<close> removes it.
\<close>

theorem C8_trailing_newline_is_matched:
  "nameFilter ''arch'' None (''arch/2021/01/01012021-120000'' @ [CHR 0x0A])
   \<and> \<not> matches_at_end (default_pattern ''arch'') (''arch/2021/01/01012021-120000'' @ [CHR 0x0A])
   \<and> collect_matchingPaths \<lparr>lastRunFile = ''/var/state/backupLastRun.lrf'', rsync = ''/usr/bin/rsync'',
          testRun = False\<rparr>
        [([''arch''], Dir), ([''arch'', ''2021''], Dir), ([''arch'', ''2021'', ''01''], Dir),
         ([''arch'', ''2021'', ''01'', ''01012021-120000'' @ [CHR 0x0A]], File),
         ([''arch'', ''2021'', ''01'', ''02012021-120000''], Dir)]
        ''arch'' None
     = Some (Inr ([([''arch''], Dir), ([''arch'', ''2021''], Dir), ([''arch'', ''2021'', ''01''], Dir),
         ([''arch'', ''2021'', ''01'', ''01012021-120000'' @ [CHR 0x0A]], File),
         ([''arch'', ''2021'', ''01'', ''02012021-120000''], Dir)],
         [''arch/2021/01/01012021-120000'' @ [CHR 0x0A], ''arch/2021/01/02012021-120000'']))
   \<and> trimArchives \<lparr>lastRunFile = ''/var/state/backupLastRun.lrf'', rsync = ''/usr/bin/rsync'',
          testRun = False\<rparr>
        [([''arch''], Dir), ([''arch'', ''2021''], Dir), ([''arch'', ''2021'', ''01''], Dir),
         ([''arch'', ''2021'', ''01'', ''01012021-120000'' @ [CHR 0x0A]], File),
         ([''arch'', ''2021'', ''01'', ''02012021-120000''], Dir)]
        ''arch'' None 1 True
     = Some (Inr [([''arch''], Dir), ([''arch'', ''2021''], Dir), ([''arch'', ''2021'', ''01''], Dir),
         ([''arch'', ''2021'', ''01'', ''02012021-120000''], Dir)])"
  by code_simp

subsection \<open>Errors during the removal\<close>

text \<open>
  Claim C9. \<open>trimArchives\<close> is claimed to return the list of removed paths and, on a
  failure to delete one selected path, to go on with the remaining ones and to report
  the errors. With a filter that matches every path and \<open>entriesToKeep = 1\<close>, the
  selection is \<open>a/b\<close>, \<open>a/b/c\<close>, \<open>a/d\<close>. Removing the directory \<open>a/b\<close> removes
  \<open>a/b/c\<close> with it, so that \<open>os.remove\<close> fails on \<open>a/b/c\<close>; the exception ends the
  call, and \<open>a/d\<close>, although selected, is still there.
\<close>

theorem C9_first_failure_ends_the_run_counterexample:
  "pathsToTrim [''a/b'', ''a/b/c'', ''a/d'', ''a/e''] 1 = [''a/b'', ''a/b/c'', ''a/d'']
   \<and> trimArchives \<lparr>lastRunFile = ''/var/state/backupLastRun.lrf'', rsync = ''/usr/bin/rsync'',
          testRun = False\<rparr>
        [([''a''], Dir), ([''a'', ''b''], Dir), ([''a'', ''b'', ''c''], File),
         ([''a'', ''d''], File), ([''a'', ''e''], File)]
        ''a'' (Some (\<lambda>p. True)) 1 True
     = Some (Inl (OSError, [([''a''], Dir), ([''a'', ''d''], File), ([''a'', ''e''], File)]))"
  by code_simp

text \<open>
  Claim C9, as the code has it. \<open>trimArchives\<close> returns no value and has no error
  policy. The selected paths are processed in order; when the removal of one of them, or
  the pruning of its parents, raises, the call ends with that error in the file system of
  that moment: the paths before it stay removed, the paths after it are not attempted.
\<close>

theorem C9_first_failure_ends_the_run:
  assumes "trim_paths self removeParentIfEmpty fs before = Some (Inr fs1)"
    and "trim_path self removeParentIfEmpty fs1 pathToRemove = Some (Inl (e, fs2))"
  shows "trim_paths self removeParentIfEmpty fs (before @ pathToRemove # rest) = Some (Inl (e, fs2))"
  using assms
proof (induction before arbitrary: fs)
  case Nil
  then show ?case by simp
next
  case (Cons p ps)
  then show ?case
    by (auto split: option.splits sum.splits)
qed

theorem C9_first_failure_ends_the_run_witness:
  "trim_paths \<lparr>lastRunFile = ''/var/state/backupLastRun.lrf'', rsync = ''/usr/bin/rsync'',
          testRun = False\<rparr> True
       [([''a''], Dir), ([''a'', ''b''], Dir), ([''a'', ''b'', ''c''], File),
        ([''a'', ''d''], File), ([''a'', ''e''], File)] [''a/b'']
     = Some (Inr [([''a''], Dir), ([''a'', ''d''], File), ([''a'', ''e''], File)])
   \<and> trim_path \<lparr>lastRunFile = ''/var/state/backupLastRun.lrf'', rsync = ''/usr/bin/rsync'',
          testRun = False\<rparr> True
       [([''a''], Dir), ([''a'', ''d''], File), ([''a'', ''e''], File)] ''a/b/c''
     = Some (Inl (OSError, [([''a''], Dir), ([''a'', ''d''], File), ([''a'', ''e''], File)]))
   \<and> trim_paths \<lparr>lastRunFile = ''/var/state/backupLastRun.lrf'', rsync = ''/usr/bin/rsync'',
          testRun = False\<rparr> True
       [([''a''], Dir), ([''a'', ''b''], Dir), ([''a'', ''b'', ''c''], File),
        ([''a'', ''d''], File), ([''a'', ''e''], File)] [''a/b'', ''a/b/c'', ''a/d'']
     = Some (Inl (OSError, [([''a''], Dir), ([''a'', ''d''], File), ([''a'', ''e''], File)]))"
proof -
  let ?self = "\<lparr>lastRunFile = ''/var/state/backupLastRun.lrf'', rsync = ''/usr/bin/rsync'',
          testRun = False\<rparr>"
  let ?fs = "[([''a''], Dir), ([''a'', ''b''], Dir), ([''a'', ''b'', ''c''], File),
        ([''a'', ''d''], File), ([''a'', ''e''], File)]"
  let ?fs1 = "[([''a''], Dir), ([''a'', ''d''], File), ([''a'', ''e''], File)]"
  have h1: "trim_paths ?self True ?fs [''a/b''] = Some (Inr ?fs1)"
    by code_simp
  have h2: "trim_path ?self True ?fs1 ''a/b/c'' = Some (Inl (OSError, ?fs1))"
    by code_simp
  from C9_first_failure_ends_the_run [OF h1 h2, of "[''a/d'']"] h1 h2
  show ?thesis by simp
qed


subsection \<open>The walk of \<open>pathWalker\<close>\<close>

text \<open>
  The walk that collects the candidates ends, leaves the file system as it is, and hands
  back only paths that the filter accepts and that a directory of the tree lists.
\<close>

lemma pathWalker_walking_result:
  "pathWalker_walking regex dirname names (fs, foundPaths) =
     Inr (fs, foundPaths @ filter regex (map (os_path_join dirname) names))"
  by (induction names arbitrary: foundPaths) auto

lemma fs_depth_bound: "e \<in> set fs \<Longrightarrow> length (fst e) \<le> fs_depth fs"
  unfolding fs_depth_def by (induction fs) auto

lemma valid_fs_names_in:
  assumes "valid_fs fs" and "name \<in> set (names_in fs d)"
  shows "valid_name name"
proof -
  from assms(2) obtain k where "(d @ [name], k) \<in> set fs"
    by (auto simp: in_names_in)
  with assms(1) have "list_all valid_name (d @ [name])"
    by (rule valid_fs_entry)
  then show ?thesis by simp
qed

lemma lstat_join_Dir:
  assumes "valid_name name" and "lstat fs (os_path_join top_dir name) = Some Dir"
  shows "(comps top_dir @ [name], Dir) \<in> set fs"
proof -
  have "comps (os_path_join top_dir name) = comps top_dir @ [name]"
    using assms(1) by (rule comps_join)
  with assms(2) have "map_of fs (comps top_dir @ [name]) = Some Dir"
    by (auto simp: lstat_def split: if_splits)
  then show ?thesis by (rule map_of_SomeD)
qed

lemma pathWalker_walk_names:
  fixes regex :: "string \<Rightarrow> bool" and fs :: fs
  assumes walk: "\<And>top_dir found. 0 < n \<Longrightarrow>
       (lstat fs top_dir = Some Dir \<longrightarrow> (\<forall>e \<in> set fs. length (fst e) < n + length (comps top_dir))) \<Longrightarrow>
       \<exists>more. os_path_walk n (pathWalker_walking regex) top_dir (fs, found)
            = Some (Inr (fs, found @ more))
          \<and> (\<forall>p \<in> set more. regex p \<and> listed fs p)"
    and "\<forall>name \<in> set names. valid_name name"
    and "\<forall>e \<in> set fs. length (fst e) < Suc n + length (comps top_dir)"
  shows "\<exists>more. walk_names n (pathWalker_walking regex) top_dir names (fs, found)
          = Some (Inr (fs, found @ more))
        \<and> (\<forall>p \<in> set more. regex p \<and> listed fs p)"
  using assms(2)
proof (induction names arbitrary: found)
  case Nil
  then show ?case by simp
next
  case (Cons name names)
  from Cons.prems have v: "valid_name name" and vs: "\<forall>name \<in> set names. valid_name name"
    by simp_all
  show ?case
  proof (cases "lstat fs (os_path_join top_dir name) = Some Dir")
    case False
    with Cons.IH [OF vs] show ?thesis by simp
  next
    case True
    have c: "comps (os_path_join top_dir name) = comps top_dir @ [name]"
      using v by (rule comps_join)
    have b: "\<forall>e \<in> set fs. length (fst e) < n + length (comps (os_path_join top_dir name))"
      using assms(3) by (simp add: c)
    have "(comps top_dir @ [name], Dir) \<in> set fs"
      using v True by (rule lstat_join_Dir)
    with assms(3) have "0 < n" by fastforce
    from walk [OF this, of "os_path_join top_dir name" found] b
    obtain more1 where m1: "os_path_walk n (pathWalker_walking regex)
          (os_path_join top_dir name) (fs, found) = Some (Inr (fs, found @ more1))"
        "\<forall>p \<in> set more1. regex p \<and> listed fs p"
      by blast
    from Cons.IH [OF vs, of "found @ more1"]
    obtain more2 where m2: "walk_names n (pathWalker_walking regex) top_dir names
          (fs, found @ more1) = Some (Inr (fs, (found @ more1) @ more2))"
        "\<forall>p \<in> set more2. regex p \<and> listed fs p"
      by blast
    from m1(2) m2(2) have g: "\<forall>p \<in> set (more1 @ more2). regex p \<and> listed fs p"
      unfolding set_append by (meson UnE)
    have "walk_names n (pathWalker_walking regex) top_dir (name # names) (fs, found)
        = Some (Inr (fs, found @ (more1 @ more2)))"
      using True m1(1) m2(1) by simp
    with g show ?thesis by (intro exI [of _ "more1 @ more2"] conjI)
  qed
qed

lemma pathWalker_walk_total:
  fixes regex :: "string \<Rightarrow> bool" and fs :: fs
  assumes "valid_fs fs"
  shows "0 < n \<Longrightarrow>
     (lstat fs top_dir = Some Dir \<longrightarrow> (\<forall>e \<in> set fs. length (fst e) < n + length (comps top_dir))) \<Longrightarrow>
     \<exists>more. os_path_walk n (pathWalker_walking regex) top_dir (fs, found)
          = Some (Inr (fs, found @ more))
        \<and> (\<forall>p \<in> set more. regex p \<and> listed fs p)"
proof (induction n arbitrary: top_dir found)
  case 0
  then show ?case by simp
next
  case (Suc n)
  show ?case
  proof (cases "os_listdir fs top_dir")
    case (Inl e)
    then have "os_path_walk (Suc n) (pathWalker_walking regex) top_dir (fs, found)
        = Some (Inr (fs, found @ []))"
      by simp
    then show ?thesis by (intro exI [of _ "[]"]) simp
  next
    case (Inr names)
    then have dir: "lstat fs top_dir = Some Dir" and names: "names = names_in fs (comps top_dir)"
      by (auto simp: os_listdir_def split: option.splits kind.splits)
    let ?here = "filter regex (map (os_path_join top_dir) names)"
    have v: "\<forall>name \<in> set names. valid_name name"
      using valid_fs_names_in [OF assms] names by blast
    have b: "\<forall>e \<in> set fs. length (fst e) < Suc n + length (comps top_dir)"
      using Suc.prems(2) dir by simp
    from pathWalker_walk_names [of n fs regex names top_dir "found @ ?here", OF Suc.IH v b]
    obtain more where more: "walk_names n (pathWalker_walking regex) top_dir names (fs, found @ ?here)
          = Some (Inr (fs, (found @ ?here) @ more))"
        "\<forall>p \<in> set more. regex p \<and> listed fs p"
      by blast
    have "regex p \<and> listed fs p" if "p \<in> set ?here" for p
    proof -
      from that obtain name where "name \<in> set names" "p = os_path_join top_dir name" "regex p"
        by auto
      with Inr show ?thesis unfolding listed_def by blast
    qed
    then have "\<forall>p \<in> set ?here. regex p \<and> listed fs p" ..
    with more(2) have g: "\<forall>p \<in> set (?here @ more). regex p \<and> listed fs p"
      unfolding set_append by (meson UnE)
    have "os_path_walk (Suc n) (pathWalker_walking regex) top_dir (fs, found)
        = Some (Inr (fs, found @ (?here @ more)))"
      using Inr more(1) by (simp add: pathWalker_walking_result)
    with g show ?thesis by (intro exI [of _ "?here @ more"] conjI)
  qed
qed

lemma pathWalker_walk_result:
  assumes "valid_fs fs"
  shows "\<exists>found. pathWalker_walk regex fs path = Some (Inr (fs, found))
           \<and> (\<forall>p \<in> set found. regex p \<and> listed fs p)"
proof -
  have "\<forall>e \<in> set fs. length (fst e) < walk_fuel fs + length (comps path)"
    using fs_depth_bound [of _ fs] by (fastforce simp: walk_fuel_def)
  with pathWalker_walk_total [OF assms, of "walk_fuel fs" path regex "[]"]
  show ?thesis by (simp add: pathWalker_walk_def walk_fuel_def)
qed

subsection \<open>Test runs\<close>

lemma listed_parent_not_empty:
  assumes "valid_fs fs" and "listed fs p"
  shows "remove_empty_parents test_run fs p = Inr fs"
proof -
  from assms(2) obtain dirname name names
    where p: "p = os_path_join dirname name" and ls: "os_listdir fs dirname = Inr names"
      and name: "name \<in> set names"
    unfolding listed_def by blast
  from ls have d: "dirname \<noteq> []" and names: "names = names_in fs (comps dirname)"
    by (simp_all add: os_listdir_Inr)
  have v: "valid_name name"
    using valid_fs_names_in [OF assms(1)] name names by blast
  note sj = split_join [OF v d, folded p]
  have "lstat fs (fst (os_path_split p)) = lstat fs dirname"
    using sj(1) d sj(2) by (rule lstat_cong)
  with ls sj(2) have "os_listdir fs (fst (os_path_split p)) = Inr names"
    by (simp add: os_listdir_def split: option.splits kind.splits)
  moreover have "names \<noteq> []" using name by auto
  ultimately show ?thesis
    using sj(3) by (subst remove_empty_parents.simps) (auto simp: Let_def)
qed

lemma trim_paths_test_run:
  assumes "valid_fs fs" and "testRun self" and "\<forall>p \<in> set ps. listed fs p"
  shows "trim_paths self removeParentIfEmpty fs ps = Some (Inr fs)"
  using assms(3)
proof (induction ps)
  case Nil
  then show ?case by simp
next
  case (Cons p ps)
  then have "listed fs p" by simp
  then have "trim_path self removeParentIfEmpty fs p = Some (Inr fs)"
    using assms(1,2) by (simp add: trim_path_def listed_parent_not_empty)
  with Cons show ?case by simp
qed

lemma set_pathsToTrim: "set (pathsToTrim found k) \<subseteq> set found"
proof -
  have "set (take n (sort found)) \<subseteq> set found" for n
    using set_take_subset [of n "sort found"] by simp
  then show ?thesis
    by (simp add: pathsToTrim_def py_slice_from0_def Let_def)
qed

text \<open>
  Claim C6. With \<open>testRun\<close> set, \<open>trimArchives\<close> ends normally and leaves the file system
  exactly as it found it; the candidates it collects, and so the list it selects from
  them, are those of a real run on the same file system (neither the walk nor the slice
  reads \<open>testRun\<close>).
\<close>

theorem C6_test_run_changes_nothing:
  assumes "valid_fs fs" and "testRun self"
  shows "trimArchives self fs archiveDir filter_re entriesToKeep removeParentIfEmpty = Some (Inr fs)
    \<and> (\<exists>found. collect_matchingPaths self fs archiveDir filter_re = Some (Inr (fs, found))
          \<and> collect_matchingPaths (self\<lparr>testRun := False\<rparr>) fs archiveDir filter_re
              = Some (Inr (fs, found)))"
proof -
  from pathWalker_walk_result [OF assms(1), of "nameFilter archiveDir filter_re" archiveDir]
  obtain found where f: "pathWalker_walk (nameFilter archiveDir filter_re) fs archiveDir
        = Some (Inr (fs, found))"
      and l: "\<forall>p \<in> set found. listed fs p"
    by blast
  from l set_pathsToTrim [of found entriesToKeep]
  have "\<forall>p \<in> set (pathsToTrim found entriesToKeep). listed fs p" by blast
  with assms have "trim_paths self removeParentIfEmpty fs (pathsToTrim found entriesToKeep)
      = Some (Inr fs)"
    by (rule trim_paths_test_run)
  with f show ?thesis
    by (simp add: trimArchives_def collect_matchingPaths_def)
qed

theorem C6_test_run_changes_nothing_witness:
  "valid_fs [([''arch''], Dir), ([''arch'', ''2021''], Dir), ([''arch'', ''2021'', ''01''], Dir),
         ([''arch'', ''2021'', ''01'', ''01012021-120000''], Dir),
         ([''arch'', ''2021'', ''01'', ''01012021-120000'', ''notes.txt''], File),
         ([''arch'', ''2021'', ''01'', ''02012021-120000''], Dir)]
   \<and> testRun \<lparr>lastRunFile = ''/var/state/backupLastRun.lrf'', rsync = ''/usr/bin/rsync'',
          testRun = True\<rparr>
   \<and> trimArchives \<lparr>lastRunFile = ''/var/state/backupLastRun.lrf'', rsync = ''/usr/bin/rsync'',
          testRun = True\<rparr>
        [([''arch''], Dir), ([''arch'', ''2021''], Dir), ([''arch'', ''2021'', ''01''], Dir),
         ([''arch'', ''2021'', ''01'', ''01012021-120000''], Dir),
         ([''arch'', ''2021'', ''01'', ''01012021-120000'', ''notes.txt''], File),
         ([''arch'', ''2021'', ''01'', ''02012021-120000''], Dir)]
        ''arch'' None 1 True
     = Some (Inr [([''arch''], Dir), ([''arch'', ''2021''], Dir), ([''arch'', ''2021'', ''01''], Dir),
         ([''arch'', ''2021'', ''01'', ''01012021-120000''], Dir),
         ([''arch'', ''2021'', ''01'', ''01012021-120000'', ''notes.txt''], File),
         ([''arch'', ''2021'', ''01'', ''02012021-120000''], Dir)])"
proof -
  let ?fs = "[([''arch''], Dir), ([''arch'', ''2021''], Dir), ([''arch'', ''2021'', ''01''], Dir),
         ([''arch'', ''2021'', ''01'', ''01012021-120000''], Dir),
         ([''arch'', ''2021'', ''01'', ''01012021-120000'', ''notes.txt''], File),
         ([''arch'', ''2021'', ''01'', ''02012021-120000''], Dir)]"
  let ?self = "\<lparr>lastRunFile = ''/var/state/backupLastRun.lrf'', rsync = ''/usr/bin/rsync'',
          testRun = True\<rparr>"
  have v: "valid_fs ?fs"
    unfolding valid_fs_code by code_simp
  have t: "testRun ?self" by simp
  from C6_test_run_changes_nothing [OF v t, of "''arch''" None 1 True] v t
  show ?thesis by simp
qed


subsection \<open>The walk of \<open>pathRemover\<close>\<close>

text \<open>
  \<open>pathRemover.walking\<close> in a directory: the files among the names are removed, the
  directories among them are noted in the order of the listing.
\<close>

lemma valid_fs_ancestor_is_Dir:
  assumes "valid_fs fs" and "e \<in> set fs" and "strict_prefix q (fst e)" and "q \<noteq> []"
  shows "map_of fs q = Some Dir"
proof -
  from assms(2) have "fst e \<in> fst ` set fs" by simp
  from valid_fs_child_of_ancestor [OF assms(1) this assms(3)]
  obtain n where "q @ [n] \<in> fst ` set fs" by blast
  then obtain k where "(q @ [n], k) \<in> set fs" by force
  from valid_fs_entry(3) [OF assms(1) this] assms(4) show ?thesis by simp
qed

lemma valid_fs_File_leaf:
  assumes "valid_fs fs" and "map_of fs q = Some File"
  shows "names_in fs q = []"
proof (rule ccontr)
  assume "names_in fs q \<noteq> []"
  then obtain n where "q @ [n] \<in> fst ` set fs"
    by (auto simp: names_in_Nil)
  then obtain k where "(q @ [n], k) \<in> set fs" by force
  from valid_fs_entry(3) [OF assms(1) this] assms(2) have "q = []"
    by auto
  with assms(2) have "([], File) \<in> set fs"
    by (simp add: map_of_SomeD)
  with valid_fs_entry(1) [OF assms(1)] show False by blast
qed

lemma valid_fs_kind_unique:
  assumes "valid_fs fs" and "e \<in> set fs" and "map_of fs (fst e) = Some k"
  shows "snd e = k"
proof -
  have "(fst e, snd e) \<in> set fs" using assms(2) by simp
  with assms(1) have "map_of fs (fst e) = Some (snd e)"
    by (metis valid_fs_map_of)
  with assms(3) show ?thesis by simp
qed

lemma distinct_names_in:
  assumes "valid_fs fs"
  shows "distinct (names_in fs d)"
proof -
  let ?es = "filter (\<lambda>e. fst e \<noteq> [] \<and> butlast (fst e) = d) fs"
  have d: "distinct (map fst ?es)"
    using assms by (simp add: valid_fs_def distinct_map_filter)
  have "inj_on last (set (map fst ?es))"
  proof (rule inj_onI)
    fix x y assume "x \<in> set (map fst ?es)" "y \<in> set (map fst ?es)" "last x = last y"
    then have "x \<noteq> []" "y \<noteq> []" "butlast x = butlast y" by auto
    with \<open>last x = last y\<close> show "x = y"
      by (metis append_butlast_last_id)
  qed
  with d have "distinct (map last (map fst ?es))"
    by (subst distinct_map) simp
  then show ?thesis by (simp add: names_in_def)
qed

lemma os_path_join_nonempty: "valid_name name \<Longrightarrow> os_path_join d name \<noteq> []"
  using comps_join [of name d] by (metis comps_Nil snoc_eq_iff_butlast)

lemma lstat_join:
  "valid_name name \<Longrightarrow> lstat fs (os_path_join d name) = map_of fs (comps d @ [name])"
  by (simp add: lstat_def os_path_join_nonempty comps_join)

lemma pathRemover_walking_result:
  assumes "valid_fs fs" and "distinct names"
    and "\<forall>nm \<in> set names. valid_name nm \<and> comps dirname @ [nm] \<in> fst ` set fs"
  shows "pathRemover_walking dirname names (fs, dirsToRemove) =
     Inr (filter (\<lambda>e. \<not> (snd e = File \<and> (\<exists>nm \<in> set names. fst e = comps dirname @ [nm]))) fs,
          dirsToRemove @ map (os_path_join dirname)
             (filter (\<lambda>nm. map_of fs (comps dirname @ [nm]) = Some Dir) names))"
  using assms
proof (induction names arbitrary: fs dirsToRemove)
  case Nil
  then show ?case by simp
next
  case (Cons name names)
  let ?D = "comps dirname"
  from Cons.prems have v: "valid_name name" and key: "?D @ [name] \<in> fst ` set fs"
    and rest: "\<forall>nm \<in> set names. valid_name nm \<and> ?D @ [nm] \<in> fst ` set fs"
    and dn: "distinct names" and nn: "name \<notin> set names"
    by simp_all
  note ls = lstat_join [OF v, of fs dirname]
  show ?case
  proof (cases "map_of fs (?D @ [name]) = Some Dir")
    case True
    have "filter (\<lambda>e. \<not> (snd e = File \<and> (\<exists>nm \<in> set names. fst e = ?D @ [nm]))) fs
        = filter (\<lambda>e. \<not> (snd e = File \<and> (\<exists>nm \<in> set (name # names). fst e = ?D @ [nm]))) fs"
    proof (rule filter_cong [OF refl])
      fix e assume e: "e \<in> set fs"
      have "snd e \<noteq> File" if "fst e = ?D @ [name]"
        using valid_fs_kind_unique [OF Cons.prems(1) e, of Dir] True that by simp
      then show "(\<not> (snd e = File \<and> (\<exists>nm \<in> set names. fst e = ?D @ [nm])))
          = (\<not> (snd e = File \<and> (\<exists>nm \<in> set (name # names). fst e = ?D @ [nm])))"
        by auto
    qed
    with Cons.IH [OF Cons.prems(1) dn rest, of "dirsToRemove @ [os_path_join dirname name]"] True
    show ?thesis by (simp add: os_path_isdir_def ls Let_def)
  next
    case False
    with key have isfile: "map_of fs (?D @ [name]) = Some File"
      by (metis keys_map_of kind.exhaust not_Some_eq)
    let ?fs' = "unlink fs (?D @ [name])"
    have rm: "os_remove fs (os_path_join dirname name) = Inr ?fs'"
      using isfile v by (simp add: os_remove_def ls comps_join)
    have v': "valid_fs ?fs'"
      using Cons.prems(1) valid_fs_File_leaf [OF Cons.prems(1) isfile] by (rule valid_fs_unlink_leaf)
    have rest': "\<forall>nm \<in> set names. valid_name nm \<and> ?D @ [nm] \<in> fst ` set ?fs'"
    proof
      fix nm assume nm: "nm \<in> set names"
      with nn have "?D @ [nm] \<noteq> ?D @ [name]" by auto
      with rest nm show "valid_name nm \<and> ?D @ [nm] \<in> fst ` set ?fs'"
        by (simp add: keys_map_of map_of_unlink)
    qed
    have same: "filter (\<lambda>nm. map_of ?fs' (?D @ [nm]) = Some Dir) names
        = filter (\<lambda>nm. map_of fs (?D @ [nm]) = Some Dir) (name # names)"
      using False by (auto simp: map_of_unlink intro: filter_cong)
    have "filter (\<lambda>e. \<not> (snd e = File \<and> (\<exists>nm \<in> set names. fst e = ?D @ [nm]))) ?fs'
        = filter (\<lambda>e. \<not> (snd e = File \<and> (\<exists>nm \<in> set (name # names). fst e = ?D @ [nm]))) fs"
    proof -
      have k: "snd e = File" if "e \<in> set fs" "fst e = ?D @ [name]" for e
        using valid_fs_kind_unique [OF Cons.prems(1) that(1), of File] isfile that(2) by simp
      show ?thesis
        unfolding unlink_filter filter_filter
        by (rule filter_cong) (use k in auto)
    qed
    with Cons.IH [OF v' dn rest', of dirsToRemove] False rm same
    show ?thesis by (simp add: os_path_isdir_def ls Let_def)
  qed
qed

text \<open>
  The walk below the names of a directory, and the whole walk: every file beneath the
  directory is removed; the directories beneath it are noted, each once and none after a
  directory that lies in it.
\<close>

lemma valid_fs_remove_files:
  assumes "valid_fs fs"
  shows "valid_fs (filter (\<lambda>e. \<not> (snd e = File \<and> Q (fst e))) fs)"
proof -
  let ?P = "\<lambda>q. \<not> (map_of fs q = Some File \<and> Q q)"
  have eq: "filter (\<lambda>e. \<not> (snd e = File \<and> Q (fst e))) fs = filter (\<lambda>e. ?P (fst e)) fs"
  proof (rule filter_cong [OF refl])
    fix e assume e: "e \<in> set fs"
    then have "(fst e, snd e) \<in> set fs" by simp
    with assms have "map_of fs (fst e) = Some (snd e)" by (metis valid_fs_map_of)
    then show "(\<not> (snd e = File \<and> Q (fst e))) = ?P (fst e)" by auto
  qed
  have "valid_fs (filter (\<lambda>e. ?P (fst e)) fs)"
  proof (rule valid_fs_filter [OF assms])
    fix q assume q: "q \<in> fst ` set fs" "q \<noteq> []" "butlast q \<noteq> []"
    then obtain k where "(q, k) \<in> set fs" by force
    from valid_fs_entry(3) [OF assms this] q(3) have "map_of fs (butlast q) = Some Dir" by simp
    then show "?P (butlast q)" by simp
  qed
  with eq show ?thesis by simp
qed

lemma same_parent_prefix:
  assumes "prefix (d @ [a]) q" and "prefix (d @ [b]) q"
  shows "a = b"
proof -
  from assms obtain r s where "q = (d @ [a]) @ r" "q = (d @ [b]) @ s"
    by (auto simp: prefix_def)
  then show ?thesis by simp
qed

lemma sp_child: "strict_prefix d (d @ [a])"
  by (simp add: strict_prefix_def)

lemma pathRemover_walk_names:
  assumes walk: "\<And>top_dir fs dirs. valid_fs fs \<Longrightarrow> 0 < n \<Longrightarrow> lstat fs top_dir = Some Dir \<Longrightarrow>
       \<forall>e \<in> set fs. length (fst e) < n + length (comps top_dir) \<Longrightarrow>
       \<exists>more. os_path_walk n pathRemover_walking top_dir (fs, dirs)
           = Some (Inr (filter (\<lambda>e. \<not> (snd e = File \<and> strict_prefix (comps top_dir) (fst e))) fs,
                        dirs @ more))
         \<and> set (map comps more) = {q. (q, Dir) \<in> set fs \<and> strict_prefix (comps top_dir) q}
         \<and> sorted_wrt (\<lambda>a b. \<not> prefix b a) (map comps more)"
    and "valid_fs fs" and "distinct names" and "\<forall>nm \<in> set names. valid_name nm"
    and "\<forall>e \<in> set fs. length (fst e) < Suc n + length (comps top_dir)"
  shows "\<exists>more. walk_names n pathRemover_walking top_dir names (fs, dirs)
           = Some (Inr (filter (\<lambda>e. \<not> (snd e = File
                    \<and> (\<exists>nm \<in> set names. strict_prefix (comps top_dir @ [nm]) (fst e)))) fs,
                        dirs @ more))
         \<and> set (map comps more)
             = {q. (q, Dir) \<in> set fs \<and> (\<exists>nm \<in> set names. strict_prefix (comps top_dir @ [nm]) q)}
         \<and> sorted_wrt (\<lambda>a b. \<not> prefix b a) (map comps more)"
  using assms(2-5)
proof (induction names arbitrary: fs dirs)
  case Nil
  have "walk_names n pathRemover_walking top_dir [] (fs, dirs) = Some (Inr (fs, dirs @ []))"
    by simp
  then show ?case by (intro exI [of _ "[]"]) simp
next
  case (Cons name names)
  let ?D = "comps top_dir"
  let ?c = "?D @ [name]"
  from Cons.prems have v: "valid_name name" and vs: "\<forall>nm \<in> set names. valid_name nm"
    and dn: "distinct names" and nn: "name \<notin> set names"
    by simp_all
  note ls = lstat_join [OF v, of fs top_dir]
  show ?case
  proof (cases "map_of fs ?c = Some Dir")
    case False
    have none: "\<not> strict_prefix ?c (fst e)" if "e \<in> set fs" for e
      using valid_fs_ancestor_is_Dir [OF Cons.prems(1) that, of ?c] False by auto
    from Cons.IH [OF Cons.prems(1) dn vs Cons.prems(4), of dirs]
    obtain more where m: "walk_names n pathRemover_walking top_dir names (fs, dirs)
           = Some (Inr (filter (\<lambda>e. \<not> (snd e = File
                    \<and> (\<exists>nm \<in> set names. strict_prefix (?D @ [nm]) (fst e)))) fs, dirs @ more))"
        "set (map comps more)
             = {q. (q, Dir) \<in> set fs \<and> (\<exists>nm \<in> set names. strict_prefix (?D @ [nm]) q)}"
        "sorted_wrt (\<lambda>a b. \<not> prefix b a) (map comps more)"
      by blast
    have f: "filter (\<lambda>e. \<not> (snd e = File \<and> (\<exists>nm \<in> set names. strict_prefix (?D @ [nm]) (fst e)))) fs
        = filter (\<lambda>e. \<not> (snd e = File
            \<and> (\<exists>nm \<in> set (name # names). strict_prefix (?D @ [nm]) (fst e)))) fs"
      by (rule filter_cong) (use none in auto)
    have s: "{q. (q, Dir) \<in> set fs \<and> (\<exists>nm \<in> set names. strict_prefix (?D @ [nm]) q)}
        = {q. (q, Dir) \<in> set fs \<and> (\<exists>nm \<in> set (name # names). strict_prefix (?D @ [nm]) q)}"
      using none by force
    have "walk_names n pathRemover_walking top_dir (name # names) (fs, dirs)
        = walk_names n pathRemover_walking top_dir names (fs, dirs)"
      using False by (simp add: ls)
    with m f s show ?thesis
      by (intro exI [of _ more]) simp
  next
    case True
    then have "(?c, Dir) \<in> set fs" by (rule map_of_SomeD)
    with Cons.prems(4) have n: "0 < n" by fastforce
    have b: "\<forall>e \<in> set fs. length (fst e) < n + length (comps (os_path_join top_dir name))"
      using Cons.prems(4) by (simp add: comps_join [OF v])
    let ?fs1 = "filter (\<lambda>e. \<not> (snd e = File \<and> strict_prefix ?c (fst e))) fs"
    from walk [OF Cons.prems(1) n _ b, of dirs] True
    obtain more1 where m1: "os_path_walk n pathRemover_walking (os_path_join top_dir name) (fs, dirs)
           = Some (Inr (?fs1, dirs @ more1))"
        "set (map comps more1) = {q. (q, Dir) \<in> set fs \<and> strict_prefix ?c q}"
        "sorted_wrt (\<lambda>a b. \<not> prefix b a) (map comps more1)"
      by (auto simp: ls comps_join [OF v])
    have v1: "valid_fs ?fs1"
      using Cons.prems(1) by (rule valid_fs_remove_files)
    have b1: "\<forall>e \<in> set ?fs1. length (fst e) < Suc n + length ?D"
      using Cons.prems(4) by simp
    from Cons.IH [OF v1 dn vs b1, of "dirs @ more1"]
    obtain more2 where m2: "walk_names n pathRemover_walking top_dir names (?fs1, dirs @ more1)
           = Some (Inr (filter (\<lambda>e. \<not> (snd e = File
                    \<and> (\<exists>nm \<in> set names. strict_prefix (?D @ [nm]) (fst e)))) ?fs1,
                  (dirs @ more1) @ more2))"
        "set (map comps more2)
             = {q. (q, Dir) \<in> set ?fs1 \<and> (\<exists>nm \<in> set names. strict_prefix (?D @ [nm]) q)}"
        "sorted_wrt (\<lambda>a b. \<not> prefix b a) (map comps more2)"
      by blast
    have run: "walk_names n pathRemover_walking top_dir (name # names) (fs, dirs)
        = Some (Inr (filter (\<lambda>e. \<not> (snd e = File
                    \<and> (\<exists>nm \<in> set names. strict_prefix (?D @ [nm]) (fst e)))) ?fs1,
                  dirs @ (more1 @ more2)))"
      using True m1(1) m2(1) by (simp add: ls)
    have f: "filter (\<lambda>e. \<not> (snd e = File
                    \<and> (\<exists>nm \<in> set names. strict_prefix (?D @ [nm]) (fst e)))) ?fs1
        = filter (\<lambda>e. \<not> (snd e = File
            \<and> (\<exists>nm \<in> set (name # names). strict_prefix (?D @ [nm]) (fst e)))) fs"
      unfolding filter_filter by (rule filter_cong) auto
    have s: "set (map comps (more1 @ more2))
        = {q. (q, Dir) \<in> set fs \<and> (\<exists>nm \<in> set (name # names). strict_prefix (?D @ [nm]) q)}"
      unfolding map_append set_append m1(2) m2(2) by auto
    have cross: "\<not> prefix b a" if "a \<in> set (map comps more1)" "b \<in> set (map comps more2)" for a b
    proof
      assume p: "prefix b a"
      from that(1) have a: "prefix ?c a" unfolding m1(2) by (simp add: strict_prefix_def)
      from that(2) obtain nm where nm: "nm \<in> set names" "prefix (?D @ [nm]) b"
        unfolding m2(2) by (auto simp: strict_prefix_def)
      from nm(2) p have "prefix (?D @ [nm]) a" by (rule prefix_order.trans)
      with a have "name = nm" by (rule same_parent_prefix)
      with nm(1) nn show False by simp
    qed
    have o: "sorted_wrt (\<lambda>a b. \<not> prefix b a) (map comps (more1 @ more2))"
      unfolding map_append sorted_wrt_append using m1(3) m2(3) cross by blast
    from run f s o show ?thesis
      by (intro exI [of _ "more1 @ more2"]) simp
  qed
qed

lemma below_dir_cases:
  assumes "valid_fs fs" and "e \<in> set fs"
  shows "strict_prefix d (fst e) \<longleftrightarrow>
     (\<exists>nm \<in> set (names_in fs d). fst e = d @ [nm] \<or> strict_prefix (d @ [nm]) (fst e))"
proof
  assume sp: "strict_prefix d (fst e)"
  from assms(2) have "fst e \<in> fst ` set fs" by simp
  from valid_fs_child_of_ancestor [OF assms(1) this sp]
  obtain nm where nm: "d @ [nm] \<in> fst ` set fs" "prefix (d @ [nm]) (fst e)" by blast
  from nm(1) have "nm \<in> set (names_in fs d)" by (simp add: in_names_in)
  with nm(2) show "\<exists>nm \<in> set (names_in fs d). fst e = d @ [nm] \<or> strict_prefix (d @ [nm]) (fst e)"
    by (auto simp: strict_prefix_def)
next
  assume "\<exists>nm \<in> set (names_in fs d). fst e = d @ [nm] \<or> strict_prefix (d @ [nm]) (fst e)"
  then obtain nm where "fst e = d @ [nm] \<or> strict_prefix (d @ [nm]) (fst e)" by blast
  then show "strict_prefix d (fst e)"
    using sp_child [of d nm] by (auto intro: prefix_order.less_trans)
qed

lemma children_top_down:
  "distinct ns \<Longrightarrow> sorted_wrt (\<lambda>a b. \<not> prefix b a) (map (\<lambda>nm. d @ [nm]) ns)"
  by (induction ns) auto

lemma pathRemover_walk_total:
  "valid_fs fs \<Longrightarrow> 0 < n \<Longrightarrow> lstat fs top_dir = Some Dir \<Longrightarrow>
     \<forall>e \<in> set fs. length (fst e) < n + length (comps top_dir) \<Longrightarrow>
     \<exists>more. os_path_walk n pathRemover_walking top_dir (fs, dirs)
         = Some (Inr (filter (\<lambda>e. \<not> (snd e = File \<and> strict_prefix (comps top_dir) (fst e))) fs,
                      dirs @ more))
       \<and> set (map comps more) = {q. (q, Dir) \<in> set fs \<and> strict_prefix (comps top_dir) q}
       \<and> sorted_wrt (\<lambda>a b. \<not> prefix b a) (map comps more)"
proof (induction n arbitrary: fs top_dir dirs)
  case 0
  then show ?case by simp
next
  case (Suc n)
  let ?D = "comps top_dir"
  let ?names = "names_in fs ?D"
  from Suc.prems(3) have ls: "os_listdir fs top_dir = Inr ?names"
    by (simp add: os_listdir_def)
  have dn: "distinct ?names"
    using Suc.prems(1) by (rule distinct_names_in)
  have vn: "\<forall>nm \<in> set ?names. valid_name nm"
    using valid_fs_names_in [OF Suc.prems(1)] by blast
  have keys: "\<forall>nm \<in> set ?names. valid_name nm \<and> ?D @ [nm] \<in> fst ` set fs"
    using vn by (simp add: in_names_in)
  let ?fs1 = "filter (\<lambda>e. \<not> (snd e = File \<and> (\<exists>nm \<in> set ?names. fst e = ?D @ [nm]))) fs"
  let ?kids = "filter (\<lambda>nm. map_of fs (?D @ [nm]) = Some Dir) ?names"
  have visit: "pathRemover_walking top_dir ?names (fs, dirs)
      = Inr (?fs1, dirs @ map (os_path_join top_dir) ?kids)"
    using Suc.prems(1) dn keys by (rule pathRemover_walking_result)
  have v1: "valid_fs ?fs1"
    using Suc.prems(1) by (rule valid_fs_remove_files)
  have b1: "\<forall>e \<in> set ?fs1. length (fst e) < Suc n + length ?D"
    using Suc.prems(4) by simp
  from pathRemover_walk_names [of n ?fs1 ?names top_dir "dirs @ map (os_path_join top_dir) ?kids",
      OF Suc.IH v1 dn vn b1]
  obtain more2 where m2: "walk_names n pathRemover_walking top_dir ?names
          (?fs1, dirs @ map (os_path_join top_dir) ?kids)
        = Some (Inr (filter (\<lambda>e. \<not> (snd e = File
                 \<and> (\<exists>nm \<in> set ?names. strict_prefix (?D @ [nm]) (fst e)))) ?fs1,
               (dirs @ map (os_path_join top_dir) ?kids) @ more2))"
      "set (map comps more2)
          = {q. (q, Dir) \<in> set ?fs1 \<and> (\<exists>nm \<in> set ?names. strict_prefix (?D @ [nm]) q)}"
      "sorted_wrt (\<lambda>a b. \<not> prefix b a) (map comps more2)"
    by blast
  let ?more = "map (os_path_join top_dir) ?kids @ more2"
  have run: "os_path_walk (Suc n) pathRemover_walking top_dir (fs, dirs)
      = Some (Inr (filter (\<lambda>e. \<not> (snd e = File
                 \<and> (\<exists>nm \<in> set ?names. strict_prefix (?D @ [nm]) (fst e)))) ?fs1,
               dirs @ ?more))"
    using ls visit m2(1) by simp
  have f: "filter (\<lambda>e. \<not> (snd e = File
                 \<and> (\<exists>nm \<in> set ?names. strict_prefix (?D @ [nm]) (fst e)))) ?fs1
      = filter (\<lambda>e. \<not> (snd e = File \<and> strict_prefix ?D (fst e))) fs"
    unfolding filter_filter
    by (rule filter_cong [OF refl]) (use below_dir_cases [OF Suc.prems(1)] in blast)
  have kc: "map comps (map (os_path_join top_dir) ?kids) = map (\<lambda>nm. ?D @ [nm]) ?kids"
    using vn by (simp add: comps_join)
  have s: "set (map comps ?more) = {q. (q, Dir) \<in> set fs \<and> strict_prefix ?D q}"
  proof (intro equalityI subsetI)
    fix q assume "q \<in> set (map comps ?more)"
    then consider nm where "nm \<in> set ?kids" "q = ?D @ [nm]"
      | "q \<in> set (map comps more2)"
      unfolding map_append set_append kc by auto
    then show "q \<in> {q. (q, Dir) \<in> set fs \<and> strict_prefix ?D q}"
    proof cases
      case 1
      then have "map_of fs q = Some Dir" by simp
      then have "(q, Dir) \<in> set fs" by (rule map_of_SomeD)
      with 1 sp_child show ?thesis by auto
    next
      case 2
      then obtain nm where "(q, Dir) \<in> set fs" "strict_prefix (?D @ [nm]) q"
        unfolding m2(2) by auto
      with sp_child [of ?D nm] show ?thesis
        by (auto intro: prefix_order.less_trans)
    qed
  next
    fix q assume "q \<in> {q. (q, Dir) \<in> set fs \<and> strict_prefix ?D q}"
    then have q: "(q, Dir) \<in> set fs" "strict_prefix ?D q" by simp_all
    from below_dir_cases [OF Suc.prems(1) q(1), of ?D] q(2)
    obtain nm where nm: "nm \<in> set ?names" "q = ?D @ [nm] \<or> strict_prefix (?D @ [nm]) q"
      by auto
    from nm(2) show "q \<in> set (map comps ?more)"
    proof
      assume e: "q = ?D @ [nm]"
      with q(1) Suc.prems(1) have "map_of fs (?D @ [nm]) = Some Dir"
        by (metis valid_fs_map_of)
      with nm(1) e show ?thesis
        unfolding map_append set_append kc by auto
    next
      assume "strict_prefix (?D @ [nm]) q"
      with q(1) nm(1) have "q \<in> set (map comps more2)"
        unfolding m2(2) by auto
      then show ?thesis by simp
    qed
  qed
  have cross: "\<not> prefix b a"
    if "a \<in> set (map (\<lambda>nm. ?D @ [nm]) ?kids)" "b \<in> set (map comps more2)" for a b
  proof
    assume p: "prefix b a"
    from that(1) have "length a = Suc (length ?D)" by auto
    moreover from that(2) obtain nm where "strict_prefix (?D @ [nm]) b"
      unfolding m2(2) by auto
    then have "Suc (length ?D) < length b"
      using prefix_length_less by fastforce
    moreover from p have "length b \<le> length a" by (rule prefix_length_le)
    ultimately show False by simp
  qed
  have "distinct ?kids" using dn by simp
  then have "sorted_wrt (\<lambda>a b. \<not> prefix b a) (map (\<lambda>nm. ?D @ [nm]) ?kids)"
    by (rule children_top_down)
  with m2(3) cross have o: "sorted_wrt (\<lambda>a b. \<not> prefix b a) (map comps ?more)"
    unfolding map_append sorted_wrt_append kc by blast
  from run f s o show ?case
    by (intro exI [of _ ?more]) simp
qed






subsection \<open>\<open>trimArchives\<close> comes to an end\<close>

lemma rmdir_all_valid:
  "valid_fs fs \<Longrightarrow> valid_fs (io_state (rmdir_all fs ds))"
proof (induction ds arbitrary: fs)
  case Nil
  then show ?case by (simp add: io_state_def)
next
  case (Cons d ds)
  show ?case
  proof (cases "os_rmdir fs d")
    case (Inl e)
    with Cons.prems show ?thesis by (simp add: io_state_def)
  next
    case (Inr fs')
    then have "fs' = unlink fs (comps d)" "names_in fs (comps d) = []"
      by (simp_all add: os_rmdir_Inr)
    with Cons.prems have "valid_fs fs'"
      by (simp add: valid_fs_unlink_leaf)
    with Cons.IH Inr show ?thesis by simp
  qed
qed

lemma remove_path_returns:
  assumes "valid_fs fs"
  shows "\<exists>r. remove_path fs pathToRemove = Some r \<and> valid_fs (io_state r)"
proof (cases "os_path_isdir fs pathToRemove")
  case False
  show ?thesis
  proof (cases "os_remove fs pathToRemove")
    case (Inl e)
    with False assms show ?thesis by (simp add: remove_path_def io_state_def)
  next
    case (Inr fs')
    then have "fs' = unlink fs (comps pathToRemove)" "map_of fs (comps pathToRemove) = Some File"
      by (simp_all add: os_remove_Inr)
    with assms have "valid_fs fs'"
      by (simp add: valid_fs_unlink_leaf valid_fs_File_leaf)
    with False Inr show ?thesis by (simp add: remove_path_def io_state_def)
  qed
next
  case True
  then have dir: "lstat fs pathToRemove = Some Dir"
    by (simp add: os_path_isdir_def)
  let ?fs1 = "filter (\<lambda>e. \<not> (snd e = File \<and> strict_prefix (comps pathToRemove) (fst e))) fs"
  have bound: "\<forall>e \<in> set fs. length (fst e) < walk_fuel fs + length (comps pathToRemove)"
    using fs_depth_bound [of _ fs] by (fastforce simp: walk_fuel_def)
  have "0 < walk_fuel fs" by (simp add: walk_fuel_def)
  from pathRemover_walk_total [OF assms this dir bound, of "[]"]
  obtain dirs where walk: "os_path_walk (walk_fuel fs) pathRemover_walking pathToRemove (fs, [])
        = Some (Inr (?fs1, dirs))"
    by auto
  have "valid_fs ?fs1" using assms by (rule valid_fs_remove_files)
  then have v2: "valid_fs (io_state (rmdir_all ?fs1 (rev dirs)))"
    by (rule rmdir_all_valid)
  show ?thesis
  proof (cases "rmdir_all ?fs1 (rev dirs)")
    case (Inl a)
    with v2 True walk show ?thesis
      by (simp add: remove_path_def pathRemover_walk_def)
  next
    case (Inr fs2)
    with v2 have v: "valid_fs fs2" by (simp add: io_state_def)
    show ?thesis
    proof (cases "os_rmdir fs2 pathToRemove")
      case (Inl e)
      with v True walk Inr show ?thesis
        by (simp add: remove_path_def pathRemover_walk_def io_state_def)
    next
      case r: (Inr fs3)
      then have "fs3 = unlink fs2 (comps pathToRemove)" "names_in fs2 (comps pathToRemove) = []"
        by (simp_all add: os_rmdir_Inr)
      with v have "valid_fs fs3" by (simp add: valid_fs_unlink_leaf)
      with True walk Inr r show ?thesis
        by (simp add: remove_path_def pathRemover_walk_def io_state_def)
    qed
  qed
qed

lemma remove_empty_parents_valid:
  assumes "valid_fs fs"
  shows "valid_fs (io_state (remove_empty_parents test_run fs lastParent))"
proof -
  from remove_empty_parents_effect [OF assms, of test_run lastParent]
  obtain removed where st: "io_state (remove_empty_parents test_run fs lastParent)
        = filter (\<lambda>e. fst e \<notin> set removed) fs"
      and closed: "\<forall>d \<in> set removed. \<forall>e \<in> set fs. strict_prefix d (fst e) \<longrightarrow> fst e \<in> set removed"
    by blast
  have "valid_fs (filter (\<lambda>e. fst e \<notin> set removed) fs)"
  proof (rule valid_fs_filter [OF assms])
    fix q assume q: "q \<in> fst ` set fs" "q \<noteq> []" "q \<notin> set removed"
    show "butlast q \<notin> set removed"
    proof
      assume "butlast q \<in> set removed"
      moreover from q(2) have "strict_prefix (butlast q) q"
        by (metis append_butlast_last_id sp_child)
      moreover from q(1) obtain e where "e \<in> set fs" "fst e = q" by force
      ultimately have "q \<in> set removed" using closed by blast
      with q(3) show False by simp
    qed
  qed
  with st show ?thesis by simp
qed

lemma trim_path_returns:
  assumes "valid_fs fs"
  shows "\<exists>r. trim_path self removeParentIfEmpty fs pathToRemove = Some r \<and> valid_fs (io_state r)"
proof -
  let ?first = "if testRun self then Some (Inr fs) else remove_path fs pathToRemove"
  have "\<exists>r. ?first = Some r \<and> valid_fs (io_state r)"
  proof (cases "testRun self")
    case True
    with assms show ?thesis by (simp add: io_state_def)
  next
    case False
    with remove_path_returns [OF assms, of pathToRemove] show ?thesis by simp
  qed
  then obtain r where r: "?first = Some r" "valid_fs (io_state r)"
    by blast
  show ?thesis
  proof (cases r)
    case (Inl a)
    with r show ?thesis by (simp add: trim_path_def)
  next
    case (Inr fs')
    with r have "valid_fs fs'" by (simp add: io_state_def)
    then have "valid_fs (io_state (remove_empty_parents (testRun self) fs' pathToRemove))"
      by (rule remove_empty_parents_valid)
    with r Inr \<open>valid_fs fs'\<close> show ?thesis
      by (simp add: trim_path_def io_state_def)
  qed
qed

lemma trim_paths_returns:
  assumes "valid_fs fs"
  shows "\<exists>r. trim_paths self removeParentIfEmpty fs ps = Some r \<and> valid_fs (io_state r)"
  using assms
proof (induction ps arbitrary: fs)
  case Nil
  then show ?case by (simp add: io_state_def)
next
  case (Cons p ps)
  from trim_path_returns [OF Cons.prems, of self removeParentIfEmpty p]
  obtain r where r: "trim_path self removeParentIfEmpty fs p = Some r" "valid_fs (io_state r)"
    by blast
  show ?case
  proof (cases r)
    case (Inl a)
    with r show ?thesis by simp
  next
    case (Inr fs')
    with r have "valid_fs fs'" by (simp add: io_state_def)
    from Cons.IH [OF this] r(1) Inr show ?thesis by simp
  qed
qed

text \<open>
  On a well-formed file system \<open>trimArchives\<close> always comes to an end, normally or with
  an error, and leaves a well-formed file system: the bound on the depth of the walks is
  never reached.
\<close>

lemma trimArchives_returns:
  assumes "valid_fs fs"
  shows "\<exists>r. trimArchives self fs archiveDir filter_re entriesToKeep removeParentIfEmpty = Some r
           \<and> valid_fs (io_state r)"
proof -
  from pathWalker_walk_result [OF assms, of "nameFilter archiveDir filter_re" archiveDir]
  obtain found where "pathWalker_walk (nameFilter archiveDir filter_re) fs archiveDir
        = Some (Inr (fs, found))"
    by blast
  with trim_paths_returns [OF assms, of self removeParentIfEmpty "pathsToTrim found entriesToKeep"]
  show ?thesis
    by (simp add: trimArchives_def collect_matchingPaths_def)
qed

end
